theory Spec2Isabelle
  imports Main
begin

section \<open>Strings\<close>

text \<open>
  A Python \<open>str\<close> is modelled as a \<^typ>\<open>string\<close>: one \<^typ>\<open>char\<close> per code point, the
  character of number \<open>n\<close> standing for the code point \<open>n\<close>. The model therefore covers the
  texts whose code points lie below 256; \<open>len\<close> is \<^const>\<open>length\<close>.
\<close>

abbreviation LF :: char where "LF \<equiv> CHR 0x0A"
abbreviation CR :: char where "CR \<equiv> CHR 0x0D"
abbreviation TAB :: char where "TAB \<equiv> CHR 0x09"
abbreviation SP :: char where "SP \<equiv> CHR 0x20"
abbreviation PIPE :: char where "PIPE \<equiv> CHR 0x7C"
abbreviation COLON :: char where "COLON \<equiv> CHR 0x3A"
abbreviation DASH :: char where "DASH \<equiv> CHR 0x2D"
abbreviation COMMA :: char where "COMMA \<equiv> CHR 0x2C"
abbreviation DQ :: char where "DQ \<equiv> CHR 0x22"

text \<open>\<open>str.isspace\<close> on one character: the code points below 256 that Python strips.\<close>

definition is_space :: "char \<Rightarrow> bool" where
  "is_space c \<longleftrightarrow>
     c \<in> set [CHR 0x09, CHR 0x0A, CHR 0x0B, CHR 0x0C, CHR 0x0D, CHR 0x1C, CHR 0x1D,
              CHR 0x1E, CHR 0x1F, CHR 0x20, CHR 0x85, CHR 0xA0]"

text \<open>The line boundaries of \<open>str.splitlines\<close> below 256.\<close>

definition is_linebreak :: "char \<Rightarrow> bool" where
  "is_linebreak c \<longleftrightarrow>
     c \<in> set [CHR 0x0A, CHR 0x0B, CHR 0x0C, CHR 0x0D, CHR 0x1C, CHR 0x1D, CHR 0x1E, CHR 0x85]"

definition lstrip :: "string \<Rightarrow> string" where
  "lstrip s = dropWhile is_space s"

definition rstrip :: "string \<Rightarrow> string" where
  "rstrip s = rev (dropWhile is_space (rev s))"

text \<open>\<open>s.strip()\<close>\<close>

definition strip :: "string \<Rightarrow> string" where
  "strip s = rstrip (lstrip s)"

text \<open>\<open>s.rstrip(chars)\<close>\<close>

definition rstrip_chars :: "string \<Rightarrow> string \<Rightarrow> string" where
  "rstrip_chars chars s = rev (dropWhile (\<lambda>c. c \<in> set chars) (rev s))"

text \<open>\<open>s.startswith(c)\<close> and \<open>s.endswith(c)\<close> for a one-character \<open>c\<close>.\<close>

definition startswith :: "string \<Rightarrow> char \<Rightarrow> bool" where
  "startswith s c \<longleftrightarrow> s \<noteq> [] \<and> hd s = c"

definition endswith :: "string \<Rightarrow> char \<Rightarrow> bool" where
  "endswith s c \<longleftrightarrow> s \<noteq> [] \<and> last s = c"

text \<open>\<open>s.split(d)\<close> for a one-character separator: never empty, \<open>"".split(d) = [""]\<close>.\<close>

fun split_on :: "char \<Rightarrow> string \<Rightarrow> string list" where
  "split_on d [] = [[]]"
| "split_on d (c # cs) =
     (let r = split_on d cs in if c = d then [] # r else (c # hd r) # tl r)"

text \<open>\<open>sep.join(xs)\<close>\<close>

fun join :: "string \<Rightarrow> string list \<Rightarrow> string" where
  "join sep [] = []"
| "join sep [x] = x"
| "join sep (x # y # ys) = x @ sep @ join sep (y # ys)"

text \<open>\<open>s.ljust(w)\<close>: padded with spaces on the right, unchanged when already that long.\<close>

definition ljust :: "string \<Rightarrow> nat \<Rightarrow> string" where
  "ljust s w = s @ replicate (w - length s) SP"

text \<open>
  \<open>s.splitlines()\<close>: a line ends at a line boundary, \<open>\r\n\<close> counting as one, and the
  boundary is dropped; no empty last line after a final boundary. \<open>cur\<close> is the line
  being read.
\<close>

fun splitlines_from :: "string \<Rightarrow> string \<Rightarrow> string list" where
  "splitlines_from cur [] = (if cur = [] then [] else [cur])"
| "splitlines_from cur [c] =
     (if is_linebreak c then [cur] else [cur @ [c]])"
| "splitlines_from cur (c # d # cs) =
     (if c = CR \<and> d = LF then cur # splitlines_from [] cs
      else if is_linebreak c then cur # splitlines_from [] (d # cs)
      else splitlines_from (cur @ [c]) (d # cs))"

definition splitlines :: "string \<Rightarrow> string list" where
  "splitlines s = splitlines_from [] s"

text \<open>\<open>s.lower()\<close> on code points below 256: A-Z and the capital letters of Latin-1.\<close>

definition lower_char :: "char \<Rightarrow> char" where
  "lower_char c =
     (let n = (of_char c :: nat)
      in if (65 \<le> n \<and> n \<le> 90) \<or> (192 \<le> n \<and> n \<le> 214) \<or> (216 \<le> n \<and> n \<le> 222)
         then char_of (n + 32) else c)"

definition lower :: "string \<Rightarrow> string" where
  "lower s = map lower_char s"

section \<open>The Markdown table model\<close>

text \<open>
  \<open>class MarkdownTable\<close>: the three fields of \<open>__init__\<close>. An alignment is the string the
  code stores (\<open>"left"\<close>, \<open>"right"\<close>, \<open>"center"\<close>; \<open>to_markdown\<close> renders any other string as
  a centred column).
\<close>

record MarkdownTable =
  header :: "string list"
  aligns :: "string list"
  rows :: "string list list"

text \<open>\<open>cells[i] if i < len(cells) else ""\<close>\<close>

definition cell_at :: "string list \<Rightarrow> nat \<Rightarrow> string" where
  "cell_at cells i = (if i < length cells then cells ! i else [])"

text \<open>
  The widths of \<open>to_markdown\<close>: the header's lengths, then for each row and each column
  \<open>widths[i] = max(widths[i], len(cell))\<close>.
\<close>

definition widen_row :: "nat \<Rightarrow> nat list \<Rightarrow> string list \<Rightarrow> nat list" where
  "widen_row cols ws r =
     foldl (\<lambda>w i. w[i := max (w ! i) (length (cell_at r i))]) ws [0..<cols]"

definition widths :: "MarkdownTable \<Rightarrow> nat list" where
  "widths t =
     (let cols = length (header t);
          w0 = map (\<lambda>i. if i < length (header t) then length (header t ! i) else 0) [0..<cols]
      in foldl (widen_row cols) w0 (rows t))"

definition fmt_row :: "nat list \<Rightarrow> nat \<Rightarrow> string list \<Rightarrow> string" where
  "fmt_row ws cols cells =
     [PIPE] @ join [PIPE] (map (\<lambda>i. [SP] @ ljust (cell_at cells i) (ws ! i) @ [SP]) [0..<cols])
       @ [PIPE]"

definition fmt_align :: "nat list \<Rightarrow> string list \<Rightarrow> nat \<Rightarrow> string" where
  "fmt_align ws als i =
     (let a = (if i < length als then als ! i else ''left'')
      in if a = ''left'' then [COLON] @ replicate (ws ! i + 1) DASH
         else if a = ''right'' then replicate (ws ! i + 1) DASH @ [COLON]
         else [COLON] @ replicate (ws ! i) DASH @ [COLON])"

definition to_markdown :: "MarkdownTable \<Rightarrow> string" where
  "to_markdown t =
     (let cols = length (header t); ws = widths t
      in join [LF]
           (fmt_row ws cols (header t)
            # ([PIPE] @ join [PIPE] (map (fmt_align ws (aligns t)) [0..<cols]) @ [PIPE])
            # map (fmt_row ws cols) (rows t)))"

section \<open>Parsing pipe tables\<close>

text \<open>
  The first loop of \<open>parse_pipe_table\<close>: from index \<open>i\<close>, the lines that contain a
  \<open>|\<close> and are not blank, each without its trailing \<open>\n\<close>, up to the first other line.
\<close>

function collect_lines :: "string list \<Rightarrow> nat \<Rightarrow> string list \<Rightarrow> string list \<times> nat" where
  "collect_lines lines i table_lines =
     (if i < length lines then
        (let ln = rstrip_chars [LF] (lines ! i)
         in if PIPE \<in> set ln \<and> strip ln \<noteq> []
            then collect_lines lines (i + 1) (table_lines @ [ln])
            else (table_lines, i))
      else (table_lines, i))"
  by pat_completeness auto
termination
  by (relation "measure (\<lambda>(lines, i, table_lines). length lines - i)") auto

declare collect_lines.simps [simp del]

definition split_row :: "string \<Rightarrow> string list" where
  "split_row s =
     (let s0 = strip s;
          s1 = (if startswith s0 PIPE then tl s0 else s0);
          s2 = (if endswith s1 PIPE then butlast s1 else s1)
      in map strip (split_on PIPE s2))"

text \<open>
  \<open>re.match(r"^:?-{2,}:?$", seg)\<close>. \<open>sep_core\<close> is the pattern against a whole string;
  \<open>$\<close> also matches just before a final \<open>\n\<close>.
\<close>

definition sep_core :: "string \<Rightarrow> bool" where
  "sep_core s =
     (let s1 = (if startswith s COLON then tl s else s);
          s2 = (if endswith s1 COLON then butlast s1 else s1)
      in 2 \<le> length s2 \<and> list_all (\<lambda>c. c = DASH) s2)"

definition re_separator :: "string \<Rightarrow> bool" where
  "re_separator seg \<longleftrightarrow> sep_core seg \<or> (endswith seg LF \<and> sep_core (butlast seg))"

definition align_of :: "string \<Rightarrow> string" where
  "align_of seg =
     (let seg' = strip seg; left = startswith seg' COLON; right = endswith seg' COLON
      in if left \<and> right then ''center'' else if right then ''right'' else ''left'')"

text \<open>\<open>parse_pipe_table(lines, start_index)\<close>: the table or \<open>None\<close>, and the next index.\<close>

definition parse_pipe_table :: "string list \<Rightarrow> nat \<Rightarrow> MarkdownTable option \<times> nat" where
  "parse_pipe_table lines start_index =
     (case collect_lines lines start_index [] of (table_lines, i) \<Rightarrow>
        if length table_lines < 2 then (None, start_index)
        else
          (let hdr = split_row (table_lines ! 0);
               separator = split_row (table_lines ! 1)
           in if \<not> list_all re_separator separator then (None, start_index)
              else (Some \<lparr>header = hdr, aligns = map align_of separator,
                           rows = map split_row (drop 2 table_lines)\<rparr>, i)))"

section \<open>Delimited text\<close>

text \<open>\<open>s.replace(c, r)\<close> for a one-character \<open>c\<close>.\<close>

definition replace_char :: "char \<Rightarrow> string \<Rightarrow> string \<Rightarrow> string" where
  "replace_char c r s = concat (map (\<lambda>x. if x = c then r else [x]) s)"

definition escape_csv :: "string \<Rightarrow> string" where
  "escape_csv s =
     (if list_ex (\<lambda>ch. ch \<in> set s) [COMMA, DQ, LF, CR]
      then [DQ] @ replace_char DQ [DQ, DQ] s @ [DQ]
      else s)"

text \<open>
  \<open>csv.reader\<close> belongs to Python's library, not to this program: it is a parameter of
  the model, a function from the lines it is given and the delimiter to the rows it
  yields, or to the error it raises.
\<close>

datatype csv_error = CsvError

type_synonym csv_reader = "string list \<Rightarrow> char \<Rightarrow> csv_error + string list list"

definition parse_delimited :: "csv_reader \<Rightarrow> string \<Rightarrow> char \<Rightarrow> csv_error + string list list" where
  "parse_delimited reader text delimiter = reader (splitlines text) delimiter"

definition header_matches :: "string list \<Rightarrow> string list \<Rightarrow> bool" where
  "header_matches row headers \<longleftrightarrow>
     map (\<lambda>c. lower (strip c)) row = map (\<lambda>c. lower (strip c)) headers"

text \<open>
  What \<open>App.paste_rows\<close> reads and writes of the grid widget: the heading text of each
  column, in order, and the rows of values shown. The clipboard is \<open>None\<close> when
  \<open>clipboard_get\<close> raises \<open>TclError\<close>.
\<close>

record grid =
  headings :: "string list"
  items :: "string list list"

datatype paste_outcome =
    ClipboardEmpty
  | NotDelimited
  | Pasted nat
  | Raised csv_error

definition paste_rows :: "csv_reader \<Rightarrow> string option \<Rightarrow> grid \<Rightarrow> grid \<times> paste_outcome" where
  "paste_rows reader clipboard g =
     (case clipboard of
        None \<Rightarrow> (g, ClipboardEmpty)
      | Some text \<Rightarrow>
          (case parse_delimited reader text COMMA of
             Inl e \<Rightarrow> (g, Raised e)
           | Inr comma_rows \<Rightarrow>
               (case (if length comma_rows \<le> 1 then parse_delimited reader text TAB
                      else Inr comma_rows) of
                  Inl e \<Rightarrow> (g, Raised e)
                | Inr rs \<Rightarrow>
                    if rs = [] then (g, NotDelimited)
                    else
                      (let hs = headings g;
                           start_idx = (if header_matches (rs ! 0) hs then 1 else 0);
                           cols = length hs;
                           new = map (\<lambda>r. map (cell_at r) [0..<cols]) (drop start_idx rs)
                       in (g\<lparr>items := items g @ new\<rparr>, Pasted (length new))))))"

section \<open>The collected run\<close>

text \<open>
  The run in the specification's words: the longest prefix of the lines from \<open>start\<close> on
  that each contain a \<open>|\<close> and are not blank, each without its trailing \<open>\n\<close>.
\<close>

definition is_table_line :: "string \<Rightarrow> bool" where
  "is_table_line l \<longleftrightarrow> PIPE \<in> set (rstrip_chars [LF] l) \<and> strip (rstrip_chars [LF] l) \<noteq> []"

definition table_run :: "string list \<Rightarrow> nat \<Rightarrow> string list" where
  "table_run lines start = map (rstrip_chars [LF]) (takeWhile is_table_line (drop start lines))"

lemma collect_lines_step:
  "collect_lines lines i acc =
     (if i < length lines \<and> is_table_line (lines ! i)
      then collect_lines lines (Suc i) (acc @ [rstrip_chars [LF] (lines ! i)])
      else (acc, i))"
  by (subst collect_lines.simps) (auto simp: is_table_line_def Let_def)

lemma table_run_step:
  "table_run lines i =
     (if i < length lines \<and> is_table_line (lines ! i)
      then rstrip_chars [LF] (lines ! i) # table_run lines (Suc i) else [])"
proof (cases "i < length lines")
  case True
  then have "drop i lines = lines ! i # drop (Suc i) lines"
    by (simp add: Cons_nth_drop_Suc)
  then show ?thesis using True by (simp add: table_run_def)
next
  case False
  then show ?thesis by (simp add: table_run_def)
qed

lemma collect_lines_run:
  "collect_lines lines i acc =
     (acc @ table_run lines i, i + length (table_run lines i))"
proof (induction lines i acc rule: collect_lines.induct)
  case (1 lines i table_lines)
  show ?case
  proof (cases "i < length lines \<and> is_table_line (lines ! i)")
    case False
    then show ?thesis
      using collect_lines_step [of lines i table_lines] table_run_step [of lines i] by auto
  next
    case True
    then have "PIPE \<in> set (rstrip_chars [LF] (lines ! i))
        \<and> strip (rstrip_chars [LF] (lines ! i)) \<noteq> []"
      by (simp add: is_table_line_def)
    with True "1.IH" [OF _ refl]
    have "collect_lines lines (i + 1) (table_lines @ [rstrip_chars [LF] (lines ! i)]) =
        ((table_lines @ [rstrip_chars [LF] (lines ! i)]) @ table_run lines (i + 1),
          i + 1 + length (table_run lines (i + 1)))"
      by simp
    then show ?thesis
      using True collect_lines_step [of lines i table_lines] table_run_step [of lines i] by simp
  qed
qed

lemma length_table_run: "start + length (table_run lines start) \<le> max start (length lines)"
  unfolding table_run_def
  using length_takeWhile_le [of is_table_line "drop start lines"] by simp

lemma parse_pipe_table_Some:
  assumes "parse_pipe_table lines i = (Some t, j)"
  shows "i + 2 \<le> j \<and> j = i + length (table_run lines i)"
  using assms
  by (auto simp: parse_pipe_table_def collect_lines_run Let_def split: if_splits)

section \<open>Finding every table\<close>

text \<open>
  A region is \<open>(start, end, table)\<close>, the end exclusive. \<open>find_tables_loop\<close> is the
  \<open>while\<close> loop of \<open>find_tables\<close>; a table object is always true in Python, so
  \<open>if t\<close> asks whether the parse returned a table.
\<close>

type_synonym region = "nat \<times> nat \<times> MarkdownTable"

function find_tables_loop :: "string list \<Rightarrow> nat \<Rightarrow> region list \<Rightarrow> region list" where
  "find_tables_loop lines i tables =
     (if i < length lines then
        (case parse_pipe_table lines i of
           (Some t, j) \<Rightarrow> find_tables_loop lines j (tables @ [(i, j, t)])
         | (None, j) \<Rightarrow> find_tables_loop lines (i + 1) tables)
      else tables)"
  by pat_completeness auto
termination
proof (relation "measure (\<lambda>(lines, i, tables). length lines - i)", goal_cases)
  case 1
  show ?case by simp
next
  case 2
  then show ?case by simp
next
  case (3 lines i tables x j t)
  then have "parse_pipe_table lines i = (Some t, j)"
    by simp
  then have "i + 2 \<le> j"
    using parse_pipe_table_Some by blast
  with 3 show ?case by simp
qed

declare find_tables_loop.simps [simp del]

definition find_tables :: "string \<Rightarrow> region list" where
  "find_tables md_text = find_tables_loop (splitlines md_text) 0 []"

section \<open>Notions used in the statements\<close>

text \<open>A string that \<open>strip\<close> leaves as it is: empty, or with no white space at either end.\<close>

definition stripped :: "string \<Rightarrow> bool" where
  "stripped s \<longleftrightarrow> s = [] \<or> (\<not> is_space (hd s) \<and> \<not> is_space (last s))"

text \<open>
  The separator pattern in the specification's words: an optional leading colon, two or
  more dashes, an optional trailing colon.
\<close>

definition sep_pattern :: "string \<Rightarrow> bool" where
  "sep_pattern s \<longleftrightarrow>
     (\<exists>l n r. (l = [] \<or> l = [COLON]) \<and> (r = [] \<or> r = [COLON]) \<and> 2 \<le> n
        \<and> s = l @ replicate n DASH @ r)"


text \<open>
  A region is what the parser returned at its start, and a region lies before another
  when it ends no later than the other starts.
\<close>

definition region_of :: "string list \<Rightarrow> region \<Rightarrow> bool" where
  "region_of lines r \<longleftrightarrow> parse_pipe_table lines (fst r) = (Some (snd (snd r)), fst (snd r))"

definition before :: "region \<Rightarrow> region \<Rightarrow> bool" where
  "before r r' \<longleftrightarrow> fst (snd r) \<le> fst r'"


text \<open>
  A cell that survives rendering and parsing: nothing for \<open>strip\<close> to remove, no \<open>|\<close> and
  no line boundary.
\<close>

definition clean_cell :: "string \<Rightarrow> bool" where
  "clean_cell c \<longleftrightarrow> stripped c \<and> PIPE \<notin> set c \<and> list_all (\<lambda>x. \<not> is_linebreak x) c"

text \<open>
  The alignment \<open>to_markdown\<close> reads for column \<open>i\<close>, and the tag the parser gives back
  for the separator cell written for it.
\<close>

definition align_at :: "MarkdownTable \<Rightarrow> nat \<Rightarrow> string" where
  "align_at t i = (if i < length (aligns t) then aligns t ! i else ''left'')"

definition canon_align :: "string \<Rightarrow> string" where
  "canon_align a = (if a = ''left'' then ''left'' else if a = ''right'' then ''right'' else ''center'')"

text \<open>
  The table with every row and the alignments brought to the header's number of columns:
  missing cells empty, extra cells dropped, as \<open>to_markdown\<close> reads them.
\<close>

definition normalized :: "MarkdownTable \<Rightarrow> MarkdownTable" where
  "normalized t =
     (let cols = length (header t)
      in \<lparr>header = header t,
          aligns = map (\<lambda>i. canon_align (align_at t i)) [0..<cols],
          rows = map (\<lambda>r. map (cell_at r) [0..<cols]) (rows t)\<rparr>)"

text \<open>
  The tables for which rendering can be parsed back: a header, clean cells in the header
  and in the columns of every row, and in each column a separator cell of at least two
  dashes (\<open>to_markdown\<close> writes one dash more than the width for \<open>left\<close> and \<open>right\<close>, and
  as many as the width otherwise).
\<close>

definition renderable :: "MarkdownTable \<Rightarrow> bool" where
  "renderable t \<longleftrightarrow>
     (let cols = length (header t)
      in header t \<noteq> []
         \<and> list_all clean_cell (header t)
         \<and> list_all (\<lambda>r. list_all (\<lambda>i. clean_cell (cell_at r i)) [0..<cols]) (rows t)
         \<and> list_all (\<lambda>i. (if align_at t i = ''left'' \<or> align_at t i = ''right'' then 1 else 2)
                          \<le> widths t ! i) [0..<cols])"

text \<open>
  One cycle: parse the text at index 0 and render the table; \<open>None\<close> when the parse
  returns no table (\<open>to_markdown\<close> of \<open>None\<close> raises in Python). \<open>cycles n\<close> repeats it.
\<close>

definition reparse :: "string \<Rightarrow> string option" where
  "reparse s =
     (case parse_pipe_table (splitlines s) 0 of
        (Some t, j) \<Rightarrow> Some (to_markdown t)
      | (None, j) \<Rightarrow> None)"

fun cycles :: "nat \<Rightarrow> string \<Rightarrow> string option" where
  "cycles 0 s = Some s"
| "cycles (Suc n) s = (case reparse s of None \<Rightarrow> None | Some s' \<Rightarrow> cycles n s')"

text \<open>The lines that \<open>to_markdown\<close> joins: the list \<open>md\<close> of the source.\<close>

definition md_lines :: "MarkdownTable \<Rightarrow> string list" where
  "md_lines t =
     (let cols = length (header t); ws = widths t
      in fmt_row ws cols (header t)
         # ([PIPE] @ join [PIPE] (map (fmt_align ws (aligns t)) [0..<cols]) @ [PIPE])
         # map (fmt_row ws cols) (rows t))"

section \<open>Stripping\<close>

lemma rstrip_prefix: "\<exists>ws. s = rstrip s @ ws \<and> list_all is_space ws"
proof -
  have "rev s = takeWhile is_space (rev s) @ dropWhile is_space (rev s)"
    by simp
  then have "s = rev (dropWhile is_space (rev s)) @ rev (takeWhile is_space (rev s))"
    by (metis rev_append rev_rev_ident)
  moreover have "list_all is_space (rev (takeWhile is_space (rev s)))"
    by (simp add: list_all_iff) (meson set_takeWhileD)
  ultimately show ?thesis
    unfolding rstrip_def by blast
qed

lemma rstrip_last: "rstrip s \<noteq> [] \<Longrightarrow> \<not> is_space (last (rstrip s))"
  unfolding rstrip_def by (simp add: last_rev hd_dropWhile)

lemma rstrip_hd: "rstrip s \<noteq> [] \<Longrightarrow> hd (rstrip s) = hd s"
  using rstrip_prefix [of s] by (metis hd_append2)

lemma lstrip_hd: "lstrip s \<noteq> [] \<Longrightarrow> \<not> is_space (hd (lstrip s))"
  unfolding lstrip_def by (simp add: hd_dropWhile)

lemma stripped_strip: "stripped (strip s)"
  unfolding stripped_def strip_def
  using rstrip_last [of "lstrip s"] rstrip_hd [of "lstrip s"] lstrip_hd [of s]
  by (metis rstrip_def dropWhile.simps(1) rev.simps(1))

lemma rstrip_id: "s = [] \<or> \<not> is_space (last s) \<Longrightarrow> rstrip s = s"
proof (cases "s = []")
  case True
  then show ?thesis by (simp add: rstrip_def)
next
  case False
  assume "s = [] \<or> \<not> is_space (last s)"
  with False have "\<not> is_space (hd (rev s))"
    by (simp add: hd_rev)
  then have "dropWhile is_space (rev s) = rev s"
    by (simp add: dropWhile_eq_self_iff)
  then show ?thesis by (simp add: rstrip_def)
qed

lemma lstrip_id: "s = [] \<or> \<not> is_space (hd s) \<Longrightarrow> lstrip s = s"
  unfolding lstrip_def by (simp add: dropWhile_eq_self_iff)

lemma strip_id: "stripped s \<Longrightarrow> strip s = s"
  unfolding stripped_def strip_def
  using lstrip_id [of s] rstrip_id [of s] by auto

lemma strip_eq_iff: "strip s = s \<longleftrightarrow> stripped s"
  using stripped_strip [of s] strip_id [of s] by auto

section \<open>Quoting\<close>

lemma length_replace_char: "length s \<le> length (replace_char DQ [DQ, DQ] s)"
  unfolding replace_char_def by (induction s) auto


section \<open>The separator pattern\<close>

lemma startswith_tl: "startswith s c \<Longrightarrow> s = c # tl s"
  by (cases s) (auto simp: startswith_def)

lemma endswith_butlast: "endswith s c \<Longrightarrow> s = butlast s @ [c]"
  unfolding endswith_def by (metis append_butlast_last_id)

lemma all_dash: "list_all (\<lambda>c. c = DASH) s \<Longrightarrow> s = replicate (length s) DASH"
  by (induction s) auto

lemma sep_core_pattern: "sep_core s \<longleftrightarrow> sep_pattern s"
proof
  assume c: "sep_core s"
  define l where "l = (if startswith s COLON then [COLON] else [])"
  define s1 where "s1 = (if startswith s COLON then tl s else s)"
  define r where "r = (if endswith s1 COLON then [COLON] else [])"
  define s2 where "s2 = (if endswith s1 COLON then butlast s1 else s1)"
  have "s = l @ s1"
    using startswith_tl [of s COLON] by (auto simp: l_def s1_def)
  moreover have "s1 = s2 @ r"
    using endswith_butlast [of s1 COLON] by (auto simp: r_def s2_def)
  moreover from c have "2 \<le> length s2 \<and> list_all (\<lambda>c. c = DASH) s2"
    unfolding sep_core_def s1_def s2_def Let_def .
  then have "2 \<le> length s2" and "s2 = replicate (length s2) DASH"
    using all_dash by blast+
  ultimately have "s = l @ replicate (length s2) DASH @ r \<and> 2 \<le> length s2"
    by simp
  moreover have "l = [] \<or> l = [COLON]" "r = [] \<or> r = [COLON]"
    by (simp_all add: l_def r_def)
  ultimately show "sep_pattern s"
    unfolding sep_pattern_def by blast
next
  assume "sep_pattern s"
  then obtain l n r where l: "l = [] \<or> l = [COLON]" and r: "r = [] \<or> r = [COLON]"
    and n: "2 \<le> n" and s: "s = l @ replicate n DASH @ r"
    unfolding sep_pattern_def by blast
  from n obtain m where m: "n = Suc (Suc m)"
    by (metis add_2_eq_Suc le_Suc_ex)
  have s1: "(if startswith s COLON then tl s else s) = replicate n DASH @ r"
    using l s m by (auto simp: startswith_def)
  have e: "endswith (replicate n DASH @ r) COLON \<longleftrightarrow> r = [COLON]"
    using r m by (auto simp: endswith_def)
  have s2: "(if endswith (replicate n DASH @ r) COLON then butlast (replicate n DASH @ r)
      else replicate n DASH @ r) = replicate n DASH"
    using r e by (auto simp: butlast_append)
  show "sep_core s"
    unfolding sep_core_def Let_def s1 s2 using n by (simp add: list_all_iff)
qed


lemma pattern_ends:
  assumes "l = [] \<or> l = [COLON]" "r = [] \<or> r = [COLON]" "2 \<le> n"
  shows "l @ replicate n DASH @ r \<noteq> []"
    and "hd (l @ replicate n DASH @ r) = (if l = [COLON] then COLON else DASH)"
    and "last (l @ replicate n DASH @ r) = (if r = [COLON] then COLON else DASH)"
proof -
  from assms(3) obtain m where m: "n = Suc (Suc m)"
    by (metis add_2_eq_Suc le_Suc_ex)
  show "l @ replicate n DASH @ r \<noteq> []"
    using m by simp
  show "hd (l @ replicate n DASH @ r) = (if l = [COLON] then COLON else DASH)"
    using assms(1) m by auto
  show "last (l @ replicate n DASH @ r) = (if r = [COLON] then COLON else DASH)"
    using assms(2) m by auto
qed

lemma sep_pattern_stripped: "sep_pattern s \<Longrightarrow> stripped s"
  unfolding sep_pattern_def stripped_def
  using pattern_ends by (auto simp: is_space_def)

lemma rstrip_snoc_space: "is_space c \<Longrightarrow> rstrip (s @ [c]) = rstrip s"
  by (simp add: rstrip_def)

lemma re_separator_strip:
  assumes "re_separator seg"
  shows "sep_pattern (strip seg)"
proof (cases "sep_core seg")
  case True
  then show ?thesis
    using sep_core_pattern sep_pattern_stripped strip_id by auto
next
  case False
  with assms have e: "endswith seg LF" and c: "sep_core (butlast seg)"
    by (auto simp: re_separator_def)
  define x where "x = butlast seg"
  from e have seg: "seg = x @ [LF]"
    unfolding x_def by (rule endswith_butlast)
  from c have p: "sep_pattern x" and st: "stripped x"
    unfolding x_def using sep_core_pattern sep_pattern_stripped by auto
  from p have "x \<noteq> []"
    unfolding sep_pattern_def using pattern_ends(1) by blast
  with st have "lstrip (x @ [LF]) = x @ [LF]"
    by (intro lstrip_id) (simp add: stripped_def)
  moreover have "rstrip (x @ [LF]) = x"
    using rstrip_snoc_space [of LF x] rstrip_id [of x] st
    by (auto simp: is_space_def stripped_def)
  ultimately have "strip seg = x"
    by (simp add: strip_def seg)
  with p show ?thesis by simp
qed

lemma align_of_pattern:
  assumes "l = [] \<or> l = [COLON]" "r = [] \<or> r = [COLON]" "2 \<le> n"
  shows "align_of (l @ replicate n DASH @ r) =
     (if l = [COLON] \<and> r = [COLON] then ''center''
      else if r = [COLON] then ''right'' else ''left'')"
proof -
  let ?s = "l @ replicate n DASH @ r"
  have "sep_pattern ?s"
    unfolding sep_pattern_def using assms by blast
  then have st: "strip ?s = ?s"
    using sep_pattern_stripped strip_id by blast
  have sw: "startswith ?s COLON \<longleftrightarrow> l = [COLON]"
    unfolding startswith_def using pattern_ends(1,2) [OF assms] assms(1) by auto
  have ew: "endswith ?s COLON \<longleftrightarrow> r = [COLON]"
    unfolding endswith_def using pattern_ends(1,3) [OF assms] assms(2) by auto
  have "align_of ?s =
     (if startswith ?s COLON \<and> endswith ?s COLON then ''center''
      else if endswith ?s COLON then ''right'' else ''left'')"
    unfolding align_of_def Let_def st by (rule refl)
  then show ?thesis
    by (simp only: sw ew)
qed

lemma align_of_strip: "align_of (strip seg) = align_of seg"
  using strip_id [OF stripped_strip, of seg] by (simp add: align_of_def)


section \<open>The parse in terms of the run\<close>

lemma parse_pipe_table_run:
  "parse_pipe_table lines start =
     (let run = table_run lines start
      in if length run < 2 then (None, start)
         else if \<not> list_all re_separator (split_row (run ! 1)) then (None, start)
         else (Some \<lparr>header = split_row (run ! 0), aligns = map align_of (split_row (run ! 1)),
                      rows = map split_row (drop 2 run)\<rparr>, start + length run))"
  by (simp add: parse_pipe_table_def collect_lines_run Let_def)

lemma split_row_stripped: "cell \<in> set (split_row s) \<Longrightarrow> stripped cell"
  unfolding split_row_def Let_def using stripped_strip by auto

lemma re_separator_stripped: "stripped c \<Longrightarrow> re_separator c \<longleftrightarrow> sep_pattern c"
  unfolding re_separator_def sep_core_pattern [symmetric]
  by (auto simp: stripped_def endswith_def is_space_def)

lemma run_second:
  assumes "2 \<le> length (table_run lines start)"
  shows "Suc start < length lines
    \<and> table_run lines start ! 1 = rstrip_chars [LF] (lines ! Suc start)"
proof -
  have 1: "start < length lines \<and> is_table_line (lines ! start)"
    using assms table_run_step [of lines start] by (auto split: if_splits)
  then have r: "table_run lines start
      = rstrip_chars [LF] (lines ! start) # table_run lines (Suc start)"
    using table_run_step [of lines start] by simp
  with assms have "1 \<le> length (table_run lines (Suc start))"
    by simp
  then have 2: "Suc start < length lines \<and> is_table_line (lines ! Suc start)"
    using table_run_step [of lines "Suc start"] by (auto split: if_splits)
  then have "table_run lines (Suc start)
      = rstrip_chars [LF] (lines ! Suc start) # table_run lines (Suc (Suc start))"
    using table_run_step [of lines "Suc start"] by simp
  with r 2 show ?thesis by simp
qed


section \<open>The scan\<close>

lemma loop_Some:
  "i < length lines \<Longrightarrow> parse_pipe_table lines i = (Some t, j) \<Longrightarrow>
     find_tables_loop lines i acc = find_tables_loop lines j (acc @ [(i, j, t)])"
  by (subst find_tables_loop.simps) simp

lemma loop_None:
  "i < length lines \<Longrightarrow> fst (parse_pipe_table lines i) = None \<Longrightarrow>
     find_tables_loop lines i acc = find_tables_loop lines (i + 1) acc"
  by (subst find_tables_loop.simps) (auto split: prod.splits option.splits)

lemma loop_end: "\<not> i < length lines \<Longrightarrow> find_tables_loop lines i acc = acc"
  by (subst find_tables_loop.simps) simp

lemma loop_invariant:
  assumes "sorted_wrt before acc"
    and "\<forall>r \<in> set acc. region_of lines r \<and> fst (snd r) \<le> i"
  shows "sorted_wrt before (find_tables_loop lines i acc)
    \<and> (\<forall>r \<in> set (find_tables_loop lines i acc). region_of lines r)"
  using assms
proof (induction "length lines - i" arbitrary: i acc rule: less_induct)
  case less
  show ?case
  proof (cases "i < length lines")
    case False
    with less.prems show ?thesis by (simp add: loop_end)
  next
    case True
    obtain x j where p: "parse_pipe_table lines i = (x, j)"
      by (cases "parse_pipe_table lines i")
    show ?thesis
    proof (cases x)
      case None
      with p True have e: "find_tables_loop lines i acc = find_tables_loop lines (i + 1) acc"
        by (simp add: loop_None)
      have "\<forall>r \<in> set acc. region_of lines r \<and> fst (snd r) \<le> i + 1"
        using less.prems(2) by auto
      moreover have "length lines - (i + 1) < length lines - i"
        using True by simp
      ultimately show ?thesis
        using less.hyps [of "i + 1" acc] less.prems(1) e by simp
    next
      case (Some t)
      with p True have e: "find_tables_loop lines i acc
          = find_tables_loop lines j (acc @ [(i, j, t)])"
        by (simp add: loop_Some)
      from p Some have ij: "i + 2 \<le> j"
        using parse_pipe_table_Some by blast
      have s: "sorted_wrt before (acc @ [(i, j, t)])"
        using less.prems by (auto simp: sorted_wrt_append before_def)
      have a: "\<forall>r \<in> set (acc @ [(i, j, t)]). region_of lines r \<and> fst (snd r) \<le> j"
        using less.prems(2) p Some ij by (auto simp: region_of_def)
      have "length lines - j < length lines - i"
        using True ij by simp
      from less.hyps [OF this s a] e show ?thesis by simp
    qed
  qed
qed

lemma find_tables_regions:
  "sorted_wrt before (find_tables text)
    \<and> (\<forall>r \<in> set (find_tables text). region_of (splitlines text) r)"
  unfolding find_tables_def using loop_invariant [of "[]" "splitlines text" 0] by simp


section \<open>What a parsed cell is made of\<close>

lemma splitlines_from_no_break:
  assumes "\<forall>c \<in> set cur. \<not> is_linebreak c" and "l \<in> set (splitlines_from cur s)"
  shows "\<forall>c \<in> set l. \<not> is_linebreak c"
  using assms
proof (induction cur s rule: splitlines_from.induct)
  case (1 cur)
  then show ?case by (cases "cur = []") simp_all
next
  case (2 cur c)
  then show ?case by (cases "is_linebreak c") simp_all
next
  case (3 cur c d cs)
  define crlf where "crlf \<longleftrightarrow> c = CR \<and> d = LF"
  have e: "splitlines_from cur (c # d # cs) =
     (if crlf then cur # splitlines_from [] cs
      else if is_linebreak c then cur # splitlines_from [] (d # cs)
      else splitlines_from (cur @ [c]) (d # cs))"
    unfolding crlf_def by (rule splitlines_from.simps(3))
  consider (a) "crlf" | (b) "\<not> crlf" "is_linebreak c" | (c) "\<not> crlf" "\<not> is_linebreak c"
    by blast
  then show ?case
  proof cases
    case a
    with "3.prems"(2) e have "l = cur \<or> l \<in> set (splitlines_from [] cs)"
      by (simp del: splitlines_from.simps)
    moreover have "c = CR \<and> d = LF"
      using a unfolding crlf_def .
    ultimately show ?thesis
      using "3.IH"(1) "3.prems"(1) by (metis empty_iff list.set(1))
  next
    case b
    with "3.prems"(2) e have "l = cur \<or> l \<in> set (splitlines_from [] (d # cs))"
      by (simp del: splitlines_from.simps)
    moreover have "\<not> (c = CR \<and> d = LF)"
      using b(1) unfolding crlf_def .
    ultimately show ?thesis
      using "3.IH"(2) "3.prems"(1) b(2) by (metis empty_iff list.set(1))
  next
    case c
    with "3.prems"(2) e have "l \<in> set (splitlines_from (cur @ [c]) (d # cs))"
      by (simp del: splitlines_from.simps)
    moreover have "\<not> (c = CR \<and> d = LF)"
      using c(1) unfolding crlf_def .
    moreover have "\<forall>x \<in> set (cur @ [c]). \<not> is_linebreak x"
      using "3.prems"(1) c(2) by simp
    ultimately show ?thesis
      using "3.IH"(3) c(2) by blast
  qed
qed

lemma splitlines_no_break:
  "l \<in> set (splitlines s) \<Longrightarrow> c \<in> set l \<Longrightarrow> \<not> is_linebreak c"
  unfolding splitlines_def using splitlines_from_no_break [of "[]" l s] by simp

lemma set_rstrip_chars: "set (rstrip_chars cs s) \<subseteq> set s"
  unfolding rstrip_chars_def using set_dropWhileD [of _ _ "rev s"] by auto

lemma set_strip: "set (strip s) \<subseteq> set s"
  unfolding strip_def rstrip_def lstrip_def
  by (auto dest!: set_dropWhileD)

lemma set_tl_subset: "set (tl xs) \<subseteq> set xs"
  by (cases xs) auto

lemma split_on_nonempty: "split_on d s \<noteq> []"
  by (induction s) (auto simp: Let_def)

lemma split_on_parts: "p \<in> set (split_on d s) \<Longrightarrow> set p \<subseteq> set s \<and> d \<notin> set p"
proof (induction s arbitrary: p)
  case Nil
  then show ?case by simp
next
  case (Cons c cs)
  obtain q qs where r: "split_on d cs = q # qs"
    using split_on_nonempty [of d cs] by (cases "split_on d cs") auto
  show ?case
  proof (cases "c = d")
    case True
    with Cons.prems r have "p = [] \<or> p \<in> set (split_on d cs)"
      by (auto simp: Let_def)
    with Cons.IH show ?thesis by auto
  next
    case False
    with Cons.prems r have "p = c # q \<or> p \<in> set qs"
      by (auto simp: Let_def)
    moreover have "set q \<subseteq> set cs \<and> d \<notin> set q"
      using Cons.IH [of q] r by simp
    moreover have "p \<in> set qs \<Longrightarrow> set p \<subseteq> set cs \<and> d \<notin> set p"
      using Cons.IH [of p] r by simp
    ultimately show ?thesis using False by auto
  qed
qed

lemma split_row_cells:
  assumes "cell \<in> set (split_row s)"
  shows "stripped cell \<and> PIPE \<notin> set cell \<and> set cell \<subseteq> set s"
proof -
  define s0 where "s0 = strip s"
  define s1 where "s1 = (if startswith s0 PIPE then tl s0 else s0)"
  define s2 where "s2 = (if endswith s1 PIPE then butlast s1 else s1)"
  from assms obtain p where p: "p \<in> set (split_on PIPE s2)" and c: "cell = strip p"
    unfolding split_row_def Let_def s0_def s1_def s2_def by auto
  have "set s1 \<subseteq> set s0"
    unfolding s1_def using set_tl_subset [of s0] by auto
  moreover have "set s2 \<subseteq> set s1"
    unfolding s2_def by (auto dest: in_set_butlastD)
  moreover have "set s0 \<subseteq> set s"
    unfolding s0_def by (rule set_strip)
  moreover have "set p \<subseteq> set s2 \<and> PIPE \<notin> set p"
    using p by (rule split_on_parts)
  moreover have "set cell \<subseteq> set p"
    unfolding c by (rule set_strip)
  ultimately show ?thesis
    using stripped_strip [of p] c by blast
qed

lemma table_run_chars:
  assumes "l \<in> set (table_run lines start)"
  shows "\<exists>l' \<in> set lines. set l \<subseteq> set l'"
proof -
  from assms obtain l' where "l' \<in> set (takeWhile is_table_line (drop start lines))"
    and l: "l = rstrip_chars [LF] l'"
    unfolding table_run_def by auto
  then have "l' \<in> set lines"
    by (meson set_takeWhileD in_set_dropD)
  with l set_rstrip_chars show ?thesis by blast
qed

lemma parsed_cells:
  assumes "parse_pipe_table lines start = (Some t, j)"
    and "cell \<in> set (header t) \<or> (\<exists>row \<in> set (rows t). cell \<in> set row)"
  shows "stripped cell \<and> PIPE \<notin> set cell \<and> (\<exists>l \<in> set lines. set cell \<subseteq> set l)"
proof -
  let ?run = "table_run lines start"
  from assms(1) have len: "2 \<le> length ?run"
    and h: "header t = split_row (?run ! 0)"
    and r: "rows t = map split_row (drop 2 ?run)"
    unfolding parse_pipe_table_run Let_def by (auto split: if_splits)
  have "0 < length ?run"
    using len by linarith
  then have "?run ! 0 \<in> set ?run"
    by (rule nth_mem)
  with assms(2) h r obtain l where "l \<in> set ?run" and "cell \<in> set (split_row l)"
    by (auto dest: in_set_dropD)
  then show ?thesis
    using split_row_cells [of cell l] table_run_chars [of l lines start] by blast
qed


lemma no_break_chars:
  assumes "\<forall>c \<in> set s. \<not> is_linebreak c"
  shows "LF \<notin> set s \<and> CR \<notin> set s"
proof -
  have "is_linebreak LF" "is_linebreak CR"
    by (simp_all add: is_linebreak_def)
  with assms show ?thesis by blast
qed


section \<open>Lines of a joined text\<close>

lemma linebreak_LF: "is_linebreak LF"
  by (simp add: is_linebreak_def)

lemma linebreak_CR: "is_linebreak CR"
  by (simp add: is_linebreak_def)

lemma splitlines_from_step:
  assumes "\<not> is_linebreak c"
  shows "splitlines_from cur (c # d # cs) = splitlines_from (cur @ [c]) (d # cs)"
proof -
  from assms linebreak_CR have "c \<noteq> CR" by blast
  then have "\<not> (c = CR \<and> d = LF)" by blast
  with assms show ?thesis
    by (simp only: splitlines_from.simps(3) if_False)
qed

lemma splitlines_from_plain:
  assumes "\<forall>c \<in> set s. \<not> is_linebreak c"
  shows "splitlines_from cur s = (if cur @ s = [] then [] else [cur @ s])"
  using assms
proof (induction s arbitrary: cur)
  case Nil
  then show ?case by simp
next
  case (Cons c s)
  then have c: "\<not> is_linebreak c" by simp
  show ?case
  proof (cases s)
    case Nil
    with c show ?thesis by simp
  next
    case (Cons d cs)
    then have "splitlines_from cur (c # s) = splitlines_from (cur @ [c]) s"
      using splitlines_from_step [OF c] by simp
    also have "\<dots> = (if (cur @ [c]) @ s = [] then [] else [(cur @ [c]) @ s])"
      using Cons.IH Cons.prems by simp
    finally show ?thesis by simp
  qed
qed

lemma splitlines_from_LF:
  "splitlines_from cur (LF # rest) = cur # splitlines_from [] rest"
proof (cases rest)
  case Nil
  then show ?thesis by (simp add: linebreak_LF)
next
  case (Cons d cs)
  have "\<not> (LF = CR \<and> d = LF)" by simp
  then show ?thesis
    unfolding Cons by (simp only: splitlines_from.simps(3) if_False linebreak_LF if_True)
qed

lemma splitlines_from_line:
  assumes "\<forall>c \<in> set s. \<not> is_linebreak c"
  shows "splitlines_from cur (s @ LF # rest) = (cur @ s) # splitlines_from [] rest"
  using assms
proof (induction s arbitrary: cur)
  case Nil
  then show ?case by (simp only: append_Nil append_Nil2 splitlines_from_LF)
next
  case (Cons c s)
  then have c: "\<not> is_linebreak c" by simp
  obtain d cs where e: "s @ LF # rest = d # cs"
    by (cases s) auto
  have "splitlines_from cur ((c # s) @ LF # rest) = splitlines_from cur (c # d # cs)"
    using e by simp
  also have "\<dots> = splitlines_from (cur @ [c]) (s @ LF # rest)"
    using splitlines_from_step [OF c] e by simp
  also have "\<dots> = ((cur @ [c]) @ s) # splitlines_from [] rest"
    using Cons.IH Cons.prems by simp
  finally show ?case by simp
qed

lemma splitlines_join:
  assumes "\<forall>l \<in> set ls. \<forall>c \<in> set l. \<not> is_linebreak c"
    and "ls \<noteq> [] \<longrightarrow> last ls \<noteq> []"
  shows "splitlines (join [LF] ls) = ls"
  using assms
proof (induction ls)
  case Nil
  then show ?case by (simp add: splitlines_def)
next
  case (Cons x xs)
  show ?case
  proof (cases xs)
    case Nil
    with Cons.prems show ?thesis
      by (simp add: splitlines_def splitlines_from_plain)
  next
    case (Cons y ys)
    then have j: "join [LF] (x # xs) = x @ LF # join [LF] xs"
      by simp
    have "\<forall>c \<in> set x. \<not> is_linebreak c"
      using Cons.prems(1) by simp
    then have "splitlines (join [LF] (x # xs)) = x # splitlines (join [LF] xs)"
      unfolding splitlines_def j using splitlines_from_line [of x "[]" "join [LF] xs"]
      by simp
    moreover have "splitlines (join [LF] xs) = xs"
      using Cons.IH Cons.prems Cons by simp
    ultimately show ?thesis by simp
  qed
qed


section \<open>Scanning whole tables\<close>

lemma not_table_line_Nil: "\<not> is_table_line []"
  by (simp add: is_table_line_def rstrip_chars_def)

lemma whole_run:
  assumes "parse_pipe_table A 0 = (Some t, length A)"
  shows "\<forall>l \<in> set A. is_table_line l" and "2 \<le> length A"
proof -
  from parse_pipe_table_Some [OF assms] have l: "length (table_run A 0) = length A"
    and "2 \<le> length A"
    by simp_all
  then show "2 \<le> length A" by simp
  from l have "length (takeWhile is_table_line A) = length A"
    by (simp add: table_run_def)
  then have "takeWhile is_table_line A = A"
    by (metis takeWhile_dropWhile_id append_eq_conv_conj length_0_conv
        length_append add_cancel_left_right append_Nil2)
  then show "\<forall>l \<in> set A. is_table_line l"
    by (simp add: takeWhile_eq_all_conv)
qed

lemma parse_same_run:
  assumes "table_run L s = table_run L' s'"
  shows "fst (parse_pipe_table L s) = fst (parse_pipe_table L' s')"
    and "fst (parse_pipe_table L s) \<noteq> None \<Longrightarrow>
      snd (parse_pipe_table L s) = s + length (table_run L' s')"
  unfolding parse_pipe_table_run Let_def assms by (auto split: if_splits)

lemma run_prefix:
  assumes "\<forall>l \<in> set A. is_table_line l"
  shows "table_run (A @ [] # B) 0 = table_run A 0"
    and "table_run (A @ [] # B) (length A) = []"
    and "table_run (A @ [] # B) (Suc (length A)) = table_run B 0"
proof -
  have t: "takeWhile is_table_line A = A"
    using assms by (simp add: takeWhile_eq_all_conv)
  have "takeWhile is_table_line (A @ [] # B) = A @ takeWhile is_table_line ([] # B)"
    using assms by (intro takeWhile_append2) simp
  then have tw: "takeWhile is_table_line (A @ [] # B) = A"
    using not_table_line_Nil by simp
  show "table_run (A @ [] # B) 0 = table_run A 0"
    by (simp only: table_run_def drop_0 tw t)
  show "table_run (A @ [] # B) (length A) = []"
    using not_table_line_Nil by (simp add: table_run_def)
  show "table_run (A @ [] # B) (Suc (length A)) = table_run B 0"
    by (simp add: table_run_def)
qed

lemma loop_two_tables:
  assumes A: "parse_pipe_table A 0 = (Some ta, length A)"
    and B: "parse_pipe_table B 0 = (Some tb, length B)"
  shows "find_tables_loop (A @ [] # B) 0 [] =
    [(0, length A, ta), (length A + 1, length A + 1 + length B, tb)]"
proof -
  let ?L = "A @ [] # B"
  let ?n = "length A"
  let ?m = "length B"
  note a = whole_run [OF A]
  note b = whole_run [OF B]
  note r = run_prefix [OF a(1), of B]
  have la: "length (table_run A 0) = ?n" and lb: "length (table_run B 0) = ?m"
    using parse_pipe_table_Some [OF A] parse_pipe_table_Some [OF B] by simp_all
  have p0: "parse_pipe_table ?L 0 = (Some ta, ?n)"
    using parse_same_run [OF r(1)] A la by (cases "parse_pipe_table ?L 0") auto
  have p1: "fst (parse_pipe_table ?L ?n) = None"
    unfolding parse_pipe_table_run Let_def r(2) by simp
  have p2: "parse_pipe_table ?L (?n + 1) = (Some tb, ?n + 1 + ?m)"
    using parse_same_run [of ?L "?n + 1" B 0] r(3) B lb
    by (cases "parse_pipe_table ?L (?n + 1)") auto
  have "find_tables_loop ?L 0 [] = find_tables_loop ?L ?n ([] @ [(0, ?n, ta)])"
    using p0 by (intro loop_Some) simp_all
  also have "\<dots> = find_tables_loop ?L (?n + 1) [(0, ?n, ta)]"
    using p1 by (simp add: loop_None)
  also have "\<dots> = find_tables_loop ?L (?n + 1 + ?m) ([(0, ?n, ta)] @ [(?n + 1, ?n + 1 + ?m, tb)])"
    using p2 b(2) by (intro loop_Some) auto
  also have "\<dots> = [(0, ?n, ta), (?n + 1, ?n + 1 + ?m, tb)]"
    by (simp add: loop_end)
  finally show ?thesis .
qed

lemma loop_one_table:
  assumes "parse_pipe_table L 0 = (Some t, length L)"
  shows "find_tables_loop L 0 [] = [(0, length L, t)]"
proof -
  from whole_run(2) [OF assms] have "0 < length L" by linarith
  then have "find_tables_loop L 0 [] = find_tables_loop L (length L) ([] @ [(0, length L, t)])"
    using assms by (rule loop_Some)
  then show ?thesis by (simp add: loop_end)
qed


lemma whole_table_last:
  assumes "parse_pipe_table B 0 = (Some t, length B)"
  shows "B \<noteq> []" and "last B \<noteq> []"
proof -
  from whole_run(2) [OF assms] show ne: "B \<noteq> []" by auto
  then have "last B \<in> set B" by (rule last_in_set)
  then have "is_table_line (last B)"
    using whole_run(1) [OF assms] by blast
  then show "last B \<noteq> []"
    using not_table_line_Nil by auto
qed


section \<open>Pasting rows\<close>

lemma paste_rows_rows:
  assumes "rs \<noteq> []"
  shows "(parse_delimited reader clip COMMA = Inr rs \<and> 1 < length rs \<longrightarrow>
           paste_rows reader (Some clip) g =
             (let data = (if header_matches (rs ! 0) (headings g) then drop 1 rs else rs);
                  new = map (\<lambda>r. map (cell_at r) [0..<length (headings g)]) data
              in (g\<lparr>items := items g @ new\<rparr>, Pasted (length new))))
       \<and> (parse_delimited reader clip COMMA = Inr rc \<and> length rc \<le> 1
            \<and> parse_delimited reader clip TAB = Inr rs \<longrightarrow>
           paste_rows reader (Some clip) g =
             (let data = (if header_matches (rs ! 0) (headings g) then drop 1 rs else rs);
                  new = map (\<lambda>r. map (cell_at r) [0..<length (headings g)]) data
              in (g\<lparr>items := items g @ new\<rparr>, Pasted (length new))))"
  using assms by (auto simp: paste_rows_def Let_def)

lemma header_matches_iff:
  "header_matches row hs \<longleftrightarrow>
     length row = length hs
     \<and> (\<forall>i < length row. lower (strip (row ! i)) = lower (strip (hs ! i)))"
  unfolding header_matches_def by (auto simp: list_eq_iff_nth_eq)


section \<open>Padding, splitting and joining\<close>

lemma space_SP: "is_space SP"
  by (simp add: is_space_def)

lemma not_space_PIPE: "\<not> is_space PIPE"
  by (simp add: is_space_def)

lemma lstrip_spaces: "list_all is_space ws \<Longrightarrow> lstrip (ws @ s) = lstrip s"
  unfolding lstrip_def by (induction ws) auto

lemma rstrip_spaces: "list_all is_space ws \<Longrightarrow> rstrip (s @ ws) = rstrip s"
proof (induction ws rule: rev_induct)
  case Nil
  then show ?case by simp
next
  case (snoc x xs)
  then have "rstrip ((s @ xs) @ [x]) = rstrip (s @ xs)"
    by (intro rstrip_snoc_space) simp
  with snoc show ?case by simp
qed

lemma strip_all_space:
  assumes "list_all is_space ws"
  shows "strip ws = []"
proof -
  from assms have a: "\<forall>x \<in> set ws. is_space x"
    by (simp add: list_all_iff)
  then have "\<forall>x \<in> set (dropWhile is_space ws). is_space x"
    by (meson set_dropWhileD)
  with a show ?thesis
    by (simp add: strip_def lstrip_def rstrip_def)
qed

lemma strip_padded:
  assumes "stripped c"
  shows "strip ([SP] @ ljust c w @ [SP]) = c"
proof -
  let ?pad = "replicate (w - length c) SP @ [SP]"
  have p: "list_all is_space ?pad"
    using space_SP by (simp add: list_all_iff)
  have e: "[SP] @ ljust c w @ [SP] = [SP] @ (c @ ?pad)"
    by (simp add: ljust_def)
  have "lstrip ([SP] @ (c @ ?pad)) = lstrip (c @ ?pad)"
    using lstrip_spaces [of "[SP]"] space_SP by simp
  show ?thesis
  proof (cases "c = []")
    case True
    have "list_all is_space ([SP] @ ([] @ ?pad))"
      using space_SP by (simp add: list_all_iff)
    then have "strip ([SP] @ ([] @ ?pad)) = []"
      by (rule strip_all_space)
    then show ?thesis
      by (simp add: True ljust_def)
  next
    case False
    with assms have h: "\<not> is_space (hd c)" and l: "\<not> is_space (last c)"
      by (simp_all add: stripped_def)
    have "lstrip ([SP] @ (c @ ?pad)) = lstrip (c @ ?pad)"
      using lstrip_spaces [of "[SP]"] space_SP by simp
    also have "\<dots> = c @ ?pad"
      using False h by (intro lstrip_id) simp
    finally have "strip ([SP] @ (c @ ?pad)) = rstrip (c @ ?pad)"
      by (simp add: strip_def)
    also have "\<dots> = rstrip c"
      using p by (rule rstrip_spaces)
    also have "\<dots> = c"
      using l by (intro rstrip_id) simp
    finally show ?thesis
      unfolding e .
  qed
qed

lemma split_on_no_sep: "d \<notin> set s \<Longrightarrow> split_on d s = [s]"
  by (induction s) (auto simp: Let_def)

lemma split_on_append:
  "d \<notin> set p \<Longrightarrow> split_on d (p @ d # rest) = p # split_on d rest"
  by (induction p) (auto simp: Let_def)

lemma split_on_join:
  assumes "ps \<noteq> []" and "\<forall>p \<in> set ps. d \<notin> set p"
  shows "split_on d (join [d] ps) = ps"
  using assms
proof (induction ps)
  case Nil
  then show ?case by simp
next
  case (Cons p ps)
  show ?case
  proof (cases ps)
    case Nil
    with Cons.prems show ?thesis by (simp add: split_on_no_sep)
  next
    case (Cons q qs)
    then have "join [d] (p # ps) = p @ d # join [d] ps"
      by simp
    moreover have "split_on d (join [d] ps) = ps"
      using Cons.IH Cons.prems Cons by simp
    ultimately show ?thesis
      using Cons.prems(2) by (simp add: split_on_append)
  qed
qed

lemma set_join: "set (join sep xs) \<subseteq> set sep \<union> \<Union> (set ` set xs)"
  by (induction sep xs rule: join.induct) auto

lemma join_nonempty_parts: "xs \<noteq> [] \<Longrightarrow> set (join sep xs) \<supseteq> \<Union> (set ` set xs)"
  by (induction sep xs rule: join.induct) auto


section \<open>Parsing a rendered line\<close>

lemma framed_stripped: "strip ([PIPE] @ j @ [PIPE]) = [PIPE] @ j @ [PIPE]"
  by (intro strip_id) (simp add: stripped_def not_space_PIPE)

lemma split_row_framed:
  assumes "parts \<noteq> []" and "\<forall>p \<in> set parts. PIPE \<notin> set p"
  shows "split_row ([PIPE] @ join [PIPE] parts @ [PIPE]) = map strip parts"
proof -
  let ?j = "join [PIPE] parts"
  have s0: "strip ([PIPE] @ ?j @ [PIPE]) = PIPE # ?j @ [PIPE]"
    using framed_stripped [of ?j] by simp
  have s1: "(if startswith (PIPE # ?j @ [PIPE]) PIPE then tl (PIPE # ?j @ [PIPE])
      else PIPE # ?j @ [PIPE]) = ?j @ [PIPE]"
    by (simp add: startswith_def)
  have s2: "(if endswith (?j @ [PIPE]) PIPE then butlast (?j @ [PIPE]) else ?j @ [PIPE]) = ?j"
    by (simp add: endswith_def)
  have "split_row ([PIPE] @ ?j @ [PIPE]) = map strip (split_on PIPE ?j)"
    unfolding split_row_def Let_def s0 s1 s2 by (rule refl)
  then show ?thesis
    using split_on_join [OF assms] by simp
qed

lemma clean_cell_parts:
  assumes "clean_cell c"
  shows "stripped c" and "PIPE \<notin> set c" and "\<forall>x \<in> set c. \<not> is_linebreak x"
  using assms by (simp_all add: clean_cell_def list_all_iff)

lemma split_row_fmt_row:
  assumes "0 < cols" and "\<forall>i < cols. clean_cell (cell_at cells i)"
  shows "split_row (fmt_row ws cols cells) = map (cell_at cells) [0..<cols]"
proof -
  let ?f = "\<lambda>i. [SP] @ ljust (cell_at cells i) (ws ! i) @ [SP]"
  let ?parts = "map ?f [0..<cols]"
  have ne: "?parts \<noteq> []"
    using assms(1) by simp
  have np: "\<forall>p \<in> set ?parts. PIPE \<notin> set p"
    using assms(2) clean_cell_parts(2) by (auto simp: ljust_def)
  have "map strip ?parts = map (cell_at cells) [0..<cols]"
    using assms(2) clean_cell_parts(1) strip_padded by (simp del: append.simps)
  then show ?thesis
    unfolding fmt_row_def using split_row_framed [OF ne np] by simp
qed

lemma fmt_align_cases:
  assumes "(if a = ''left'' \<or> a = ''right'' then 1 else 2) \<le> ws ! i"
    and "a = (if i < length als then als ! i else ''left'')"
  shows "\<exists>l n r. (l = [] \<or> l = [COLON]) \<and> (r = [] \<or> r = [COLON]) \<and> 2 \<le> n
      \<and> fmt_align ws als i = l @ replicate n DASH @ r
      \<and> canon_align a = (if l = [COLON] \<and> r = [COLON] then ''center''
                         else if r = [COLON] then ''right'' else ''left'')"
proof -
  consider (l) "a = ''left''" | (r) "a \<noteq> ''left''" "a = ''right''"
    | (c) "a \<noteq> ''left''" "a \<noteq> ''right''"
    by blast
  then show ?thesis
  proof cases
    case l
    with assms have "fmt_align ws als i = [COLON] @ replicate (ws ! i + 1) DASH @ []"
      and "2 \<le> ws ! i + 1"
      by (simp_all add: fmt_align_def Let_def)
    moreover from l have "canon_align a = ''left''"
      by (simp add: canon_align_def)
    ultimately show ?thesis
      by (intro exI [of _ "[COLON]"] exI [of _ "ws ! i + 1"] exI [of _ "[]"]) simp
  next
    case r
    with assms have "fmt_align ws als i = [] @ replicate (ws ! i + 1) DASH @ [COLON]"
      and "2 \<le> ws ! i + 1"
      by (simp_all add: fmt_align_def Let_def)
    moreover from r have "canon_align a = ''right''"
      by (simp add: canon_align_def)
    ultimately show ?thesis
      by (intro exI [of _ "[]"] exI [of _ "ws ! i + 1"] exI [of _ "[COLON]"]) simp
  next
    case c
    with assms have "fmt_align ws als i = [COLON] @ replicate (ws ! i) DASH @ [COLON]"
      and "2 \<le> ws ! i"
      by (simp_all add: fmt_align_def Let_def)
    moreover from c have "canon_align a = ''center''"
      by (simp add: canon_align_def)
    ultimately show ?thesis
      by (intro exI [of _ "[COLON]"] exI [of _ "ws ! i"] exI [of _ "[COLON]"]) simp
  qed
qed

lemma fmt_align_ok:
  assumes "(if a = ''left'' \<or> a = ''right'' then 1 else 2) \<le> ws ! i"
    and "a = (if i < length als then als ! i else ''left'')"
  shows "sep_pattern (fmt_align ws als i)"
    and "align_of (fmt_align ws als i) = canon_align a"
proof -
  from fmt_align_cases [OF assms] obtain l n r
    where l: "l = [] \<or> l = [COLON]" and r: "r = [] \<or> r = [COLON]" and n: "2 \<le> n"
      and f: "fmt_align ws als i = l @ replicate n DASH @ r"
      and c: "canon_align a = (if l = [COLON] \<and> r = [COLON] then ''center''
                         else if r = [COLON] then ''right'' else ''left'')"
    by blast
  from l r n f show "sep_pattern (fmt_align ws als i)"
    unfolding sep_pattern_def by blast
  show "align_of (fmt_align ws als i) = canon_align a"
    unfolding f c by (rule align_of_pattern [OF l r n])
qed

lemma sep_pattern_chars: "sep_pattern s \<Longrightarrow> set s \<subseteq> {COLON, DASH}"
  unfolding sep_pattern_def by auto


section \<open>The rendered lines\<close>

lemma to_markdown_lines: "to_markdown t = join [LF] (md_lines t)"
  by (simp add: to_markdown_def md_lines_def Let_def)

lemma renderable_parts:
  assumes "renderable t"
  shows "0 < length (header t)"
    and "\<forall>i < length (header t). clean_cell (cell_at (header t) i)"
    and "\<forall>r \<in> set (rows t). \<forall>i < length (header t). clean_cell (cell_at r i)"
    and "\<forall>i < length (header t).
      (if align_at t i = ''left'' \<or> align_at t i = ''right'' then 1 else 2) \<le> widths t ! i"
proof -
  from assms show "0 < length (header t)"
    by (simp add: renderable_def Let_def)
  from assms have "\<forall>c \<in> set (header t). clean_cell c"
    by (simp add: renderable_def Let_def list_all_iff)
  then show "\<forall>i < length (header t). clean_cell (cell_at (header t) i)"
    by (simp add: cell_at_def)
  from assms show "\<forall>r \<in> set (rows t). \<forall>i < length (header t). clean_cell (cell_at r i)"
    by (simp add: renderable_def Let_def list_all_iff)
  from assms show "\<forall>i < length (header t).
      (if align_at t i = ''left'' \<or> align_at t i = ''right'' then 1 else 2) \<le> widths t ! i"
    by (simp add: renderable_def Let_def list_all_iff)
qed

lemma framed_table_line: "is_table_line ([PIPE] @ j @ [PIPE])"
proof -
  have "rstrip_chars [LF] ([PIPE] @ j @ [PIPE]) = [PIPE] @ j @ [PIPE]"
    by (simp add: rstrip_chars_def)
  then show ?thesis
    unfolding is_table_line_def using framed_stripped [of j] by simp
qed

lemma framed_rstrip: "rstrip_chars [LF] ([PIPE] @ j @ [PIPE]) = [PIPE] @ j @ [PIPE]"
  by (simp add: rstrip_chars_def)

lemma md_lines_framed:
  assumes "l \<in> set (md_lines t)"
  shows "\<exists>j. l = [PIPE] @ j @ [PIPE]"
  using assms by (auto simp: md_lines_def Let_def fmt_row_def)

lemma table_run_md_lines: "table_run (md_lines t) 0 = md_lines t"
proof -
  have a: "\<forall>l \<in> set (md_lines t). is_table_line l"
    using md_lines_framed framed_table_line by metis
  then have "takeWhile is_table_line (md_lines t) = md_lines t"
    by (simp add: takeWhile_eq_all_conv)
  moreover have "map (rstrip_chars [LF]) (md_lines t) = md_lines t"
    using md_lines_framed framed_rstrip by (intro map_idI) metis
  ultimately show ?thesis
    by (simp only: table_run_def drop_0)
qed


lemma map_cell_at_id: "map (cell_at xs) [0..<length xs] = xs"
proof -
  have "map (cell_at xs) [0..<length xs] = map ((!) xs) [0..<length xs]"
    by (intro map_cong) (auto simp: cell_at_def)
  then show ?thesis by (simp add: map_nth)
qed

lemma join_all:
  assumes "\<forall>x \<in> set sep. P x" and "\<forall>p \<in> set ps. \<forall>x \<in> set p. P x"
  shows "\<forall>x \<in> set (join sep ps). P x"
  using assms by (induction sep ps rule: join.induct) auto

lemma split_row_sepline:
  assumes "0 < cols"
    and "\<forall>i < cols. (if align_at t i = ''left'' \<or> align_at t i = ''right'' then 1 else 2)
        \<le> ws ! i"
  shows "split_row ([PIPE] @ join [PIPE] (map (fmt_align ws (aligns t)) [0..<cols]) @ [PIPE])
      = map (fmt_align ws (aligns t)) [0..<cols]"
    and "list_all re_separator (map (fmt_align ws (aligns t)) [0..<cols])"
    and "map align_of (map (fmt_align ws (aligns t)) [0..<cols])
      = map (\<lambda>i. canon_align (align_at t i)) [0..<cols]"
proof -
  let ?parts = "map (fmt_align ws (aligns t)) [0..<cols]"
  have ok: "sep_pattern (fmt_align ws (aligns t) i)
      \<and> align_of (fmt_align ws (aligns t) i) = canon_align (align_at t i)"
    if "i < cols" for i
    using fmt_align_ok [of "align_at t i" ws i "aligns t"] assms(2) that
    by (simp add: align_at_def)
  have ne: "?parts \<noteq> []"
    using assms(1) by simp
  have np: "\<forall>p \<in> set ?parts. PIPE \<notin> set p"
    using ok sep_pattern_chars by fastforce
  have "map strip ?parts = ?parts"
    using ok sep_pattern_stripped strip_id by (intro map_idI) auto
  then show "split_row ([PIPE] @ join [PIPE] ?parts @ [PIPE]) = ?parts"
    using split_row_framed [OF ne np] by simp
  show "list_all re_separator ?parts"
    using ok sep_pattern_stripped re_separator_stripped by (auto simp: list_all_iff)
  show "map align_of ?parts = map (\<lambda>i. canon_align (align_at t i)) [0..<cols]"
    using ok by simp
qed

lemma parse_md_lines:
  assumes "renderable t"
  shows "parse_pipe_table (md_lines t) 0 = (Some (normalized t), length (md_lines t))"
proof -
  let ?cols = "length (header t)"
  let ?ws = "widths t"
  let ?sep = "[PIPE] @ join [PIPE] (map (fmt_align ?ws (aligns t)) [0..<?cols]) @ [PIPE]"
  note r = renderable_parts [OF assms]
  note s = split_row_sepline [OF r(1) r(4)]
  have l: "md_lines t = fmt_row ?ws ?cols (header t) # ?sep # map (fmt_row ?ws ?cols) (rows t)"
    by (simp add: md_lines_def Let_def)
  have len: "\<not> length (md_lines t) < 2"
    unfolding l by simp
  have h: "split_row (md_lines t ! 0) = header t"
    unfolding l using split_row_fmt_row [OF r(1) r(2), of ?ws]
    by (simp add: map_cell_at_id)
  have sp: "split_row (md_lines t ! 1) = map (fmt_align ?ws (aligns t)) [0..<?cols]"
    unfolding l using s(1) by simp
  have rw: "map split_row (drop 2 (md_lines t))
      = map (\<lambda>r. map (cell_at r) [0..<?cols]) (rows t)"
    unfolding l using split_row_fmt_row [OF r(1), of _ ?ws] r(3) by simp
  show ?thesis
    unfolding parse_pipe_table_run Let_def table_run_md_lines
    using len h sp rw s(2) s(3) by (simp add: normalized_def Let_def)
qed

lemma md_lines_no_break:
  assumes "renderable t" and "l \<in> set (md_lines t)"
  shows "\<forall>c \<in> set l. \<not> is_linebreak c"
proof -
  let ?cols = "length (header t)"
  let ?ws = "widths t"
  note r = renderable_parts [OF assms(1)]
  have p: "\<not> is_linebreak PIPE" and sp: "\<not> is_linebreak SP"
    and co: "\<not> is_linebreak COLON" and da: "\<not> is_linebreak DASH"
    by (simp_all add: is_linebreak_def)
  have row: "\<forall>c \<in> set (fmt_row ?ws ?cols cells). \<not> is_linebreak c"
    if "\<forall>i < ?cols. clean_cell (cell_at cells i)" for cells
  proof -
    have "\<forall>x \<in> set ([SP] @ ljust (cell_at cells i) (?ws ! i) @ [SP]). \<not> is_linebreak x"
      if "i < ?cols" for i
      using \<open>\<forall>i < ?cols. clean_cell (cell_at cells i)\<close> that clean_cell_parts(3) sp
      by (auto simp: ljust_def)
    then have "\<forall>x \<in> set (join [PIPE]
        (map (\<lambda>i. [SP] @ ljust (cell_at cells i) (?ws ! i) @ [SP]) [0..<?cols])). \<not> is_linebreak x"
      using p by (intro join_all) auto
    then show ?thesis
      unfolding fmt_row_def using p by simp
  qed
  have sep: "\<forall>c \<in> set ([PIPE] @ join [PIPE] (map (fmt_align ?ws (aligns t)) [0..<?cols]) @ [PIPE]).
      \<not> is_linebreak c"
  proof -
    have "set (fmt_align ?ws (aligns t) i) \<subseteq> {COLON, DASH}" for i
      by (auto simp: fmt_align_def Let_def)
    then have "\<forall>x \<in> set (join [PIPE] (map (fmt_align ?ws (aligns t)) [0..<?cols])).
        \<not> is_linebreak x"
      using p co da by (intro join_all) auto
    then show ?thesis using p by simp
  qed
  from assms(2) consider "l = fmt_row ?ws ?cols (header t)"
    | "l = [PIPE] @ join [PIPE] (map (fmt_align ?ws (aligns t)) [0..<?cols]) @ [PIPE]"
    | r where "r \<in> set (rows t)" "l = fmt_row ?ws ?cols r"
    by (auto simp: md_lines_def Let_def)
  then show ?thesis
  proof cases
    case 1
    then show ?thesis using row [OF r(2)] by simp
  next
    case 2
    then show ?thesis using sep by simp
  next
    case 3
    then show ?thesis using row [of r] r(3) by simp
  qed
qed

lemma splitlines_to_markdown:
  assumes "renderable t"
  shows "splitlines (to_markdown t) = md_lines t"
proof -
  have "md_lines t \<noteq> []"
    by (simp add: md_lines_def Let_def)
  then have "last (md_lines t) \<in> set (md_lines t)"
    by (rule last_in_set)
  then have "last (md_lines t) \<noteq> []"
    using md_lines_framed by fastforce
  then show ?thesis
    unfolding to_markdown_lines
    using md_lines_no_break [OF assms] by (intro splitlines_join) auto
qed


section \<open>Rendering the parsed table again\<close>

lemma length_md_lines: "length (md_lines t) = 2 + length (rows t)"
  by (simp add: md_lines_def Let_def)

lemma cell_at_normalized_row:
  "i < cols \<Longrightarrow> cell_at (map (cell_at r) [0..<cols]) i = cell_at r i"
  by (simp add: cell_at_def)

lemma widen_row_cong:
  assumes "\<forall>i < cols. cell_at r i = cell_at r' i"
  shows "widen_row cols ws r = widen_row cols ws r'"
  unfolding widen_row_def using assms by (intro foldl_cong) auto

lemma widths_normalized: "widths (normalized t) = widths t"
proof -
  let ?cols = "length (header t)"
  have "foldl (widen_row ?cols) w (map (\<lambda>r. map (cell_at r) [0..<?cols]) rs)
      = foldl (widen_row ?cols) w rs" for w rs
  proof (induction rs arbitrary: w)
    case Nil
    then show ?case by simp
  next
    case (Cons r rs)
    have "widen_row ?cols w (map (cell_at r) [0..<?cols]) = widen_row ?cols w r"
      by (intro widen_row_cong) (simp add: cell_at_normalized_row)
    with Cons show ?case by simp
  qed
  note f = this
  have h: "header (normalized t) = header t"
    and r: "rows (normalized t) = map (\<lambda>r. map (cell_at r) [0..<?cols]) (rows t)"
    by (simp_all add: normalized_def Let_def)
  show ?thesis
    unfolding widths_def Let_def h r f by (rule refl)
qed

lemma fmt_row_normalized:
  "fmt_row ws cols (map (cell_at r) [0..<cols]) = fmt_row ws cols r"
proof -
  have "map (\<lambda>i. [SP] @ ljust (cell_at (map (cell_at r) [0..<cols]) i) (ws ! i) @ [SP]) [0..<cols]
      = map (\<lambda>i. [SP] @ ljust (cell_at r i) (ws ! i) @ [SP]) [0..<cols]"
    by (intro map_cong) (simp_all add: cell_at_normalized_row)
  then show ?thesis
    by (simp only: fmt_row_def)
qed

lemma fmt_align_canon:
  assumes "i < cols"
  shows "fmt_align ws (map (\<lambda>i. canon_align (align_at t i)) [0..<cols]) i
      = fmt_align ws (aligns t) i"
proof -
  let ?a = "align_at t i"
  have c: "(canon_align ?a = ''left'') = (?a = ''left'')"
    "(canon_align ?a = ''right'') = (?a = ''right'')"
    by (simp_all add: canon_align_def)
  have "fmt_align ws (map (\<lambda>i. canon_align (align_at t i)) [0..<cols]) i =
      (if canon_align ?a = ''left'' then [COLON] @ replicate (ws ! i + 1) DASH
       else if canon_align ?a = ''right'' then replicate (ws ! i + 1) DASH @ [COLON]
       else [COLON] @ replicate (ws ! i) DASH @ [COLON])"
    using assms by (simp add: fmt_align_def Let_def)
  also have "\<dots> = fmt_align ws (aligns t) i"
    unfolding c by (simp add: fmt_align_def Let_def align_at_def)
  finally show ?thesis .
qed

lemma md_lines_normalized: "md_lines (normalized t) = md_lines t"
proof -
  let ?cols = "length (header t)"
  have h: "header (normalized t) = header t"
    and a: "aligns (normalized t) = map (\<lambda>i. canon_align (align_at t i)) [0..<?cols]"
    and r: "rows (normalized t) = map (\<lambda>r. map (cell_at r) [0..<?cols]) (rows t)"
    by (simp_all add: normalized_def Let_def)
  have ma: "map (fmt_align (widths t) (aligns (normalized t))) [0..<?cols]
      = map (fmt_align (widths t) (aligns t)) [0..<?cols]"
    unfolding a by (intro map_cong) (simp_all add: fmt_align_canon)
  have mr: "map (fmt_row (widths t) ?cols) (rows (normalized t))
      = map (fmt_row (widths t) ?cols) (rows t)"
    unfolding r by (simp add: fmt_row_normalized)
  show ?thesis
    unfolding md_lines_def Let_def widths_normalized h ma mr by (rule refl)
qed

lemma to_markdown_normalized: "to_markdown (normalized t) = to_markdown t"
  by (simp only: to_markdown_lines md_lines_normalized)

lemma reparse_to_markdown:
  assumes "renderable t"
  shows "reparse (to_markdown t) = Some (to_markdown t)"
  unfolding reparse_def splitlines_to_markdown [OF assms] parse_md_lines [OF assms]
  by (simp add: to_markdown_normalized)

lemma cycles_fixed: "reparse s = Some s \<Longrightarrow> cycles n s = Some s"
  by (induction n) simp_all


text \<open>
  A centred column of width one is rendered with the separator \<open>:-:\<close>, which the parser's
  pattern rejects: such a table is not found again in its own rendering. The theorems
  below leave these tables out.
\<close>

lemma narrow_centre_not_found:
  "to_markdown \<lparr>header = [''a''], aligns = [''center''], rows = []\<rparr>
     = join [LF] [''| a |'', ''|:-:|'']
   \<and> find_tables (to_markdown \<lparr>header = [''a''], aligns = [''center''], rows = []\<rparr>) = []
   \<and> reparse (to_markdown \<lparr>header = [''a''], aligns = [''center''], rows = []\<rparr>) = None"
  by code_simp


section \<open>The claims\<close>

text \<open>
  C7: \<open>_escape_csv\<close> wraps a cell in double quotes, its own double quotes doubled, if and
  only if the cell contains a comma, a double quote, \<open>\n\<close> or \<open>\r\<close>, and returns any other
  cell unchanged; the cell \<open>He said "hi", ok\<close> becomes \<open>"He said ""hi"", ok"\<close>.
\<close>

theorem escape_csv_quotes_iff:
  "(escape_csv s = [DQ] @ concat (map (\<lambda>c. if c = DQ then [DQ, DQ] else [c]) s) @ [DQ]
      \<longleftrightarrow> COMMA \<in> set s \<or> DQ \<in> set s \<or> LF \<in> set s \<or> CR \<in> set s)
   \<and> (escape_csv s = s
      \<longleftrightarrow> \<not> (COMMA \<in> set s \<or> DQ \<in> set s \<or> LF \<in> set s \<or> CR \<in> set s))
   \<and> escape_csv (''He said '' @ [DQ] @ ''hi'' @ [DQ] @ '', ok'')
       = [DQ] @ ''He said '' @ [DQ, DQ] @ ''hi'' @ [DQ, DQ] @ '', ok'' @ [DQ]"
proof -
  let ?q = "COMMA \<in> set s \<or> DQ \<in> set s \<or> LF \<in> set s \<or> CR \<in> set s"
  let ?w = "[DQ] @ replace_char DQ [DQ, DQ] s @ [DQ]"
  have ne: "?w \<noteq> s"
  proof
    assume "?w = s"
    then have "length ?w = length s" by simp
    then show False using length_replace_char [of s] by simp
  qed
  have e: "escape_csv s = (if ?q then ?w else s)"
    by (simp add: escape_csv_def)
  have 1: "escape_csv s = ?w \<longleftrightarrow> ?q"
  proof (cases ?q)
    case True
    with e show ?thesis by simp
  next
    case False
    with e have "escape_csv s = s" by simp
    with ne False show ?thesis by metis
  qed
  have 2: "escape_csv s = s \<longleftrightarrow> \<not> ?q"
  proof (cases ?q)
    case True
    with e have "escape_csv s = ?w" by simp
    with ne True show ?thesis by metis
  next
    case False
    with e show ?thesis by simp
  qed
  have 3: "escape_csv (''He said '' @ [DQ] @ ''hi'' @ [DQ] @ '', ok'')
       = [DQ] @ ''He said '' @ [DQ, DQ] @ ''hi'' @ [DQ, DQ] @ '', ok'' @ [DQ]"
    by (simp add: escape_csv_def replace_char_def)
  from 1 2 3 show ?thesis
    unfolding replace_char_def by blast
qed

theorem escape_csv_quotes_iff_witness:
  "escape_csv ''a,b'' = [DQ] @ ''a,b'' @ [DQ] \<and> escape_csv ''plain'' = ''plain''"
  using escape_csv_quotes_iff [of "''a,b''"] escape_csv_quotes_iff [of "''plain''"]
  by simp


text \<open>
  C6: a separator cell that the pattern accepts is, once stripped, an optional colon, two
  or more dashes and an optional colon, and its alignment is \<open>center\<close> with both colons,
  \<open>right\<close> with the trailing colon only, \<open>left\<close> otherwise; so \<open>:---:\<close> is centred,
  \<open>---:\<close> is right, \<open>:---\<close> and \<open>---\<close> are left.
\<close>

theorem align_of_separator:
  "(re_separator seg \<longrightarrow>
      (\<exists>l n r. (l = [] \<or> l = [COLON]) \<and> (r = [] \<or> r = [COLON]) \<and> 2 \<le> n
         \<and> strip seg = l @ replicate n DASH @ r
         \<and> align_of seg =
             (if l = [COLON] \<and> r = [COLON] then ''center''
              else if r = [COLON] then ''right'' else ''left'')))
   \<and> re_separator '':---:'' \<and> align_of '':---:'' = ''center''
   \<and> re_separator ''---:'' \<and> align_of ''---:'' = ''right''
   \<and> re_separator '':---'' \<and> align_of '':---'' = ''left''
   \<and> re_separator ''---'' \<and> align_of ''---'' = ''left''"
proof -
  have "\<exists>l n r. (l = [] \<or> l = [COLON]) \<and> (r = [] \<or> r = [COLON]) \<and> 2 \<le> n
         \<and> strip seg = l @ replicate n DASH @ r
         \<and> align_of seg =
             (if l = [COLON] \<and> r = [COLON] then ''center''
              else if r = [COLON] then ''right'' else ''left'')"
    if "re_separator seg"
  proof -
    from that obtain l n r where l: "l = [] \<or> l = [COLON]" and r: "r = [] \<or> r = [COLON]"
      and n: "2 \<le> n" and s: "strip seg = l @ replicate n DASH @ r"
      using re_separator_strip unfolding sep_pattern_def by blast
    have "align_of seg = align_of (l @ replicate n DASH @ r)"
      using align_of_strip [of seg] s by simp
    then have "align_of seg =
             (if l = [COLON] \<and> r = [COLON] then ''center''
              else if r = [COLON] then ''right'' else ''left'')"
      by (simp only: align_of_pattern [OF l r n])
    with l r n s show ?thesis
      by (intro exI [of _ l] exI [of _ n] exI [of _ r] conjI)
  qed
  then have 1: "re_separator seg \<longrightarrow>
      (\<exists>l n r. (l = [] \<or> l = [COLON]) \<and> (r = [] \<or> r = [COLON]) \<and> 2 \<le> n
         \<and> strip seg = l @ replicate n DASH @ r
         \<and> align_of seg =
             (if l = [COLON] \<and> r = [COLON] then ''center''
              else if r = [COLON] then ''right'' else ''left''))"
    by (rule impI)
  have 2: "re_separator '':---:'' \<and> align_of '':---:'' = ''center''
   \<and> re_separator ''---:'' \<and> align_of ''---:'' = ''right''
   \<and> re_separator '':---'' \<and> align_of '':---'' = ''left''
   \<and> re_separator ''---'' \<and> align_of ''---'' = ''left''"
    by code_simp
  from 1 2 show ?thesis by (rule conjI)
qed

theorem align_of_separator_witness:
  "re_separator '':--:''
   \<and> (\<exists>l n r. (l = [] \<or> l = [COLON]) \<and> (r = [] \<or> r = [COLON]) \<and> 2 \<le> n
         \<and> strip '':--:'' = l @ replicate n DASH @ r
         \<and> align_of '':--:'' =
             (if l = [COLON] \<and> r = [COLON] then ''center''
              else if r = [COLON] then ''right'' else ''left''))"
  (is "?a \<and> ?e")
proof -
  have a: ?a by code_simp
  from align_of_separator [of "'':--:''"] have "?a \<longrightarrow> ?e"
    by (rule conjunct1)
  then have ?e using a by (rule mp)
  with a show ?thesis by (rule conjI)
qed


text \<open>
  C4: \<open>parse_pipe_table\<close> returns no table exactly when the run of non-blank lines with a
  \<open>|\<close> at \<open>start\<close> has fewer than two lines or some cell of its second line is not an
  optional colon, two or more dashes and an optional colon; it then returns \<open>start\<close>
  unchanged; and a second line \<open>| --- | abc |\<close> makes the parse fail.
\<close>

theorem parse_pipe_table_fails_iff:
  "(fst (parse_pipe_table lines start) = None \<longleftrightarrow>
      length (table_run lines start) < 2
      \<or> (\<exists>cell \<in> set (split_row (table_run lines start ! 1)). \<not> sep_pattern cell))
   \<and> (fst (parse_pipe_table lines start) = None \<longrightarrow>
        snd (parse_pipe_table lines start) = start)
   \<and> (Suc start < length lines \<and> lines ! Suc start = ''| --- | abc |'' \<longrightarrow>
        parse_pipe_table lines start = (None, start))"
proof -
  let ?run = "table_run lines start"
  have cells: "list_all re_separator (split_row s)
      \<longleftrightarrow> \<not> (\<exists>cell \<in> set (split_row s). \<not> sep_pattern cell)" for s
    using split_row_stripped re_separator_stripped by (auto simp: list_all_iff)
  have 1: "fst (parse_pipe_table lines start) = None \<longleftrightarrow>
      length ?run < 2 \<or> (\<exists>cell \<in> set (split_row (?run ! 1)). \<not> sep_pattern cell)"
    unfolding parse_pipe_table_run Let_def cells by simp
  have 2: "fst (parse_pipe_table lines start) = None \<longrightarrow>
        snd (parse_pipe_table lines start) = start"
    unfolding parse_pipe_table_run Let_def by simp
  have 3: "parse_pipe_table lines start = (None, start)"
    if "Suc start < length lines \<and> lines ! Suc start = ''| --- | abc |''"
  proof (cases "length ?run < 2")
    case True
    then show ?thesis
      unfolding parse_pipe_table_run Let_def by simp
  next
    case False
    then have "?run ! 1 = rstrip_chars [LF] ''| --- | abc |''"
      using run_second [of lines start] that by simp
    moreover have "\<not> list_all re_separator (split_row (rstrip_chars [LF] ''| --- | abc |''))"
      by code_simp
    ultimately show ?thesis
      unfolding parse_pipe_table_run Let_def by simp
  qed
  from 1 2 3 show ?thesis by blast
qed

theorem parse_pipe_table_fails_iff_witness:
  "parse_pipe_table [''| a | b |'', ''| --- | abc |'', ''| 1 | 2 |''] 0 = (None, 0)
   \<and> fst (parse_pipe_table [''| a | b |''] 0) = None
   \<and> fst (parse_pipe_table [''| a | b |'', ''| --- | :-: |''] 0) = None"
proof -
  have "parse_pipe_table [''| a | b |'', ''| --- | abc |'', ''| 1 | 2 |''] 0 = (None, 0)"
    using parse_pipe_table_fails_iff [of "[''| a | b |'', ''| --- | abc |'', ''| 1 | 2 |'']" 0]
    by simp
  moreover have "length (table_run [''| a | b |''] 0) < 2"
    by code_simp
  then have "fst (parse_pipe_table [''| a | b |''] 0) = None"
    using parse_pipe_table_fails_iff [of "[''| a | b |'']" 0] by blast
  moreover have "\<not> sep_pattern '':-:''"
    unfolding sep_core_pattern [symmetric] by code_simp
  moreover have "split_row (table_run [''| a | b |'', ''| --- | :-: |''] 0 ! 1) = [''---'', '':-:'']"
    by code_simp
  ultimately show ?thesis
    using parse_pipe_table_fails_iff [of "[''| a | b |'', ''| --- | :-: |'']" 0] by simp
qed


text \<open>
  C2, as amended: the four-line text \<open>| Col A | Col B |\<close>, \<open>| :--- | ---: |\<close>,
  \<open>| one | 1 |\<close>, \<open>| two | 2 |\<close> parses at index 0 to the header \<open>Col A\<close>, \<open>Col B\<close>, the
  alignments left and right and the rows \<open>one\<close>, \<open>1\<close> and \<open>two\<close>, \<open>2\<close>; \<open>to_markdown\<close> of that
  table is the text padded to the column widths, \<open>| Col A | Col B |\<close>,
  \<open>|:------|------:|\<close>, \<open>| one   | 1     |\<close>, \<open>| two   | 2     |\<close>, and that text parses to
  the same table.
\<close>

theorem scenario_parse_and_render:
  "parse_pipe_table
     (splitlines (join [LF] [''| Col A | Col B |'', ''| :--- | ---: |'', ''| one | 1 |'',
        ''| two | 2 |''])) 0
     = (Some \<lparr>header = [''Col A'', ''Col B''], aligns = [''left'', ''right''],
               rows = [[''one'', ''1''], [''two'', ''2'']]\<rparr>, 4)
   \<and> to_markdown \<lparr>header = [''Col A'', ''Col B''], aligns = [''left'', ''right''],
               rows = [[''one'', ''1''], [''two'', ''2'']]\<rparr>
     = join [LF] [''| Col A | Col B |'', ''|:------|------:|'', ''| one   | 1     |'',
        ''| two   | 2     |'']
   \<and> parse_pipe_table
     (splitlines (join [LF] [''| Col A | Col B |'', ''|:------|------:|'', ''| one   | 1     |'',
        ''| two   | 2     |''])) 0
     = (Some \<lparr>header = [''Col A'', ''Col B''], aligns = [''left'', ''right''],
               rows = [[''one'', ''1''], [''two'', ''2'']]\<rparr>, 4)"
  by code_simp

text \<open>
  C2 as stated fails: the rendering of the parsed table is not the four-line input.
\<close>

theorem scenario_render_differs:
  "to_markdown (the (fst (parse_pipe_table
     (splitlines (join [LF] [''| Col A | Col B |'', ''| :--- | ---: |'', ''| one | 1 |'',
        ''| two | 2 |''])) 0)))
   \<noteq> join [LF] [''| Col A | Col B |'', ''| :--- | ---: |'', ''| one | 1 |'', ''| two | 2 |'']"
  by code_simp


text \<open>
  C10: for every text, a table that \<open>parse_pipe_table\<close> returns on the lines of the text, and
  the table of every region of \<open>find_tables\<close>, has header cells and row cells with no white
  space at either end, no \<open>|\<close> and no \<open>\n\<close> (nor \<open>\r\<close>); and the returned end is at least
  the start plus two.
\<close>

theorem parsed_cells_clean:
  "(\<forall>t j. parse_pipe_table (splitlines text) start = (Some t, j) \<longrightarrow>
      start + 2 \<le> j
      \<and> (\<forall>cell \<in> set (header t).
            stripped cell \<and> PIPE \<notin> set cell \<and> LF \<notin> set cell \<and> CR \<notin> set cell)
      \<and> (\<forall>row \<in> set (rows t). \<forall>cell \<in> set row.
            stripped cell \<and> PIPE \<notin> set cell \<and> LF \<notin> set cell \<and> CR \<notin> set cell))
   \<and> (\<forall>r \<in> set (find_tables text).
      fst r + 2 \<le> fst (snd r)
      \<and> (\<forall>cell \<in> set (header (snd (snd r))).
            stripped cell \<and> PIPE \<notin> set cell \<and> LF \<notin> set cell \<and> CR \<notin> set cell)
      \<and> (\<forall>row \<in> set (rows (snd (snd r))). \<forall>cell \<in> set row.
            stripped cell \<and> PIPE \<notin> set cell \<and> LF \<notin> set cell \<and> CR \<notin> set cell))"
proof -
  have cell: "stripped cell \<and> PIPE \<notin> set cell \<and> LF \<notin> set cell \<and> CR \<notin> set cell"
    if p: "parse_pipe_table (splitlines text) s = (Some t, j)"
      and c: "cell \<in> set (header t) \<or> (\<exists>row \<in> set (rows t). cell \<in> set row)"
    for s t j cell
  proof -
    from parsed_cells [OF p c] obtain l where "stripped cell" "PIPE \<notin> set cell"
      and l: "l \<in> set (splitlines text)" and sub: "set cell \<subseteq> set l"
      by blast
    moreover have "\<forall>x \<in> set cell. \<not> is_linebreak x"
      using splitlines_no_break [OF l] sub by blast
    ultimately show ?thesis
      using no_break_chars [of cell] by blast
  qed
  have one: "start + 2 \<le> j
      \<and> (\<forall>cell \<in> set (header t).
            stripped cell \<and> PIPE \<notin> set cell \<and> LF \<notin> set cell \<and> CR \<notin> set cell)
      \<and> (\<forall>row \<in> set (rows t). \<forall>cell \<in> set row.
            stripped cell \<and> PIPE \<notin> set cell \<and> LF \<notin> set cell \<and> CR \<notin> set cell)"
    if p: "parse_pipe_table (splitlines text) start = (Some t, j)" for start t j
    using parse_pipe_table_Some [OF p] cell [OF p] by blast
  have "fst r + 2 \<le> fst (snd r)
      \<and> (\<forall>cell \<in> set (header (snd (snd r))).
            stripped cell \<and> PIPE \<notin> set cell \<and> LF \<notin> set cell \<and> CR \<notin> set cell)
      \<and> (\<forall>row \<in> set (rows (snd (snd r))). \<forall>cell \<in> set row.
            stripped cell \<and> PIPE \<notin> set cell \<and> LF \<notin> set cell \<and> CR \<notin> set cell)"
    if r: "r \<in> set (find_tables text)" for r
  proof -
    from r have "parse_pipe_table (splitlines text) (fst r) = (Some (snd (snd r)), fst (snd r))"
      using find_tables_regions [of "text"] by (simp add: region_of_def)
    then show ?thesis by (rule one)
  qed
  with one show ?thesis by blast
qed

theorem parsed_cells_clean_witness:
  "find_tables (join [LF] [''intro'', ''| a b | c |'', ''|---|:--:|'', ''|  x  ||'', '''', ''end''])
     = [(1, 4, \<lparr>header = [''a b'', ''c''], aligns = [''left'', ''center''],
                rows = [[''x'', '''']]\<rparr>)]
   \<and> 1 + 2 \<le> (4::nat)
   \<and> stripped ''a b'' \<and> PIPE \<notin> set ''a b'' \<and> LF \<notin> set ''a b'' \<and> CR \<notin> set ''a b''"
proof -
  let ?text = "join [LF] [''intro'', ''| a b | c |'', ''|---|:--:|'', ''|  x  ||'', '''', ''end'']"
  let ?t = "\<lparr>header = [''a b'', ''c''], aligns = [''left'', ''center''],
                rows = [[''x'', '''']]\<rparr>"
  have f: "find_tables ?text = [(1, 4, ?t)]"
    by code_simp
  then have "(1, 4, ?t) \<in> set (find_tables ?text)"
    by simp
  with parsed_cells_clean [of ?text 0]
  have "fst (1::nat, 4::nat, ?t) + 2 \<le> fst (snd (1::nat, 4::nat, ?t))
      \<and> (\<forall>cell \<in> set (header (snd (snd (1::nat, 4::nat, ?t)))).
            stripped cell \<and> PIPE \<notin> set cell \<and> LF \<notin> set cell \<and> CR \<notin> set cell)"
    by blast
  with f show ?thesis by simp
qed


text \<open>
  C9: the regions of \<open>find_tables\<close> come in strictly increasing line order, each starting
  no earlier than the one before it ends, and none is empty; and a text made of two whole
  tables with one blank line between them gives exactly the two regions of those tables.
\<close>

theorem find_tables_disjoint:
  "(\<forall>i j. i < j \<and> j < length (find_tables md_text) \<longrightarrow>
      fst (find_tables md_text ! i) < fst (find_tables md_text ! j)
      \<and> fst (snd (find_tables md_text ! i)) \<le> fst (find_tables md_text ! j))
   \<and> (\<forall>r \<in> set (find_tables md_text). fst r < fst (snd r))
   \<and> (parse_pipe_table A 0 = (Some ta, length A) \<and> parse_pipe_table B 0 = (Some tb, length B)
        \<and> (\<forall>l \<in> set (A @ B). \<forall>c \<in> set l. \<not> is_linebreak c) \<longrightarrow>
      find_tables (join [LF] (A @ [[]] @ B)) =
        [(0, length A, ta), (length A + 1, length A + 1 + length B, tb)])"
proof -
  let ?rs = "find_tables md_text"
  note f = find_tables_regions [of md_text]
  have len: "fst r + 2 \<le> fst (snd r)" if "r \<in> set ?rs" for r
  proof -
    from f that have "region_of (splitlines md_text) r" by blast
    then show ?thesis
      unfolding region_of_def using parse_pipe_table_Some by blast
  qed
  have 1: "fst (?rs ! i) < fst (?rs ! j) \<and> fst (snd (?rs ! i)) \<le> fst (?rs ! j)"
    if "i < j \<and> j < length ?rs" for i j
  proof -
    from f that have "before (?rs ! i) (?rs ! j)"
      by (simp add: sorted_wrt_iff_nth_less)
    moreover have "fst (?rs ! i) + 2 \<le> fst (snd (?rs ! i))"
      using that by (intro len nth_mem) simp
    ultimately show ?thesis
      by (simp add: before_def)
  qed
  have 2: "\<forall>r \<in> set ?rs. fst r < fst (snd r)"
    using len by fastforce
  have 3: "find_tables (join [LF] (A @ [[]] @ B)) =
        [(0, length A, ta), (length A + 1, length A + 1 + length B, tb)]"
    if h: "parse_pipe_table A 0 = (Some ta, length A) \<and> parse_pipe_table B 0 = (Some tb, length B)
        \<and> (\<forall>l \<in> set (A @ B). \<forall>c \<in> set l. \<not> is_linebreak c)"
  proof -
    from h have pa: "parse_pipe_table A 0 = (Some ta, length A)"
      and pb: "parse_pipe_table B 0 = (Some tb, length B)"
      and nb: "\<forall>l \<in> set (A @ B). \<forall>c \<in> set l. \<not> is_linebreak c"
      by blast+
    from whole_table_last [OF pb] have "last (A @ [[]] @ B) \<noteq> []"
      by simp
    moreover have "\<forall>l \<in> set (A @ [[]] @ B). \<forall>c \<in> set l. \<not> is_linebreak c"
      using nb by auto
    ultimately have "splitlines (join [LF] (A @ [[]] @ B)) = A @ [[]] @ B"
      by (intro splitlines_join) simp_all
    then show ?thesis
      unfolding find_tables_def using loop_two_tables [OF pa pb] by simp
  qed
  from 1 2 3 show ?thesis by blast
qed

theorem find_tables_disjoint_witness:
  "find_tables (join [LF] ([''| a | b |'', ''|---|--:|'', ''| 1 | 2 |''] @ [[]]
       @ [''| c |'', ''| :--: |'']))
     = [(0, 3, \<lparr>header = [''a'', ''b''], aligns = [''left'', ''right''], rows = [[''1'', ''2'']]\<rparr>),
        (4, 6, \<lparr>header = [''c''], aligns = [''center''], rows = []\<rparr>)]
   \<and> (0::nat) < 4 \<and> (3::nat) \<le> 4"
proof -
  let ?A = "[''| a | b |'', ''|---|--:|'', ''| 1 | 2 |'']"
  let ?B = "[''| c |'', ''| :--: |'']"
  let ?ta = "\<lparr>header = [''a'', ''b''], aligns = [''left'', ''right''], rows = [[''1'', ''2'']]\<rparr>"
  let ?tb = "\<lparr>header = [''c''], aligns = [''center''], rows = []\<rparr>"
  have a: "parse_pipe_table ?A 0 = (Some ?ta, length ?A)"
    by code_simp
  have b: "parse_pipe_table ?B 0 = (Some ?tb, length ?B)"
    by code_simp
  have "list_all (list_all (\<lambda>c. \<not> is_linebreak c)) (?A @ ?B)"
    by code_simp
  then have n: "\<forall>l \<in> set (?A @ ?B). \<forall>c \<in> set l. \<not> is_linebreak c"
    unfolding list_all_iff .
  from find_tables_disjoint [of "[]" ?A ?ta ?B ?tb] a b n
  have "find_tables (join [LF] (?A @ [[]] @ ?B)) =
        [(0, length ?A, ?ta), (length ?A + 1, length ?A + 1 + length ?B, ?tb)]"
    by blast
  then show ?thesis by simp
qed


text \<open>
  C8: \<open>paste_rows\<close> uses the comma-delimited rows when there are at least two of them and
  the tab-delimited rows when the comma parse gave at most one; the first row is left out
  of the inserted rows if and only if it matches the headings, that is, has as many cells
  and each cell, stripped and lower-cased, equals the heading stripped and lower-cased;
  a first row \<open>col a\<close>, \<open>COL B\<close> matches the headings \<open>Col A\<close>, \<open>Col B\<close> and a first row
  \<open>x\<close>, \<open>1\<close> does not.
\<close>

theorem paste_rows_sniff_and_skip:
  "(rs \<noteq> [] \<and> parse_delimited reader clip COMMA = Inr rs \<and> 1 < length rs \<longrightarrow>
       paste_rows reader (Some clip) g =
         (let data = (if header_matches (rs ! 0) (headings g) then drop 1 rs else rs);
              new = map (\<lambda>r. map (cell_at r) [0..<length (headings g)]) data
          in (g\<lparr>items := items g @ new\<rparr>, Pasted (length new))))
   \<and> (rs \<noteq> [] \<and> parse_delimited reader clip COMMA = Inr rc \<and> length rc \<le> 1
        \<and> parse_delimited reader clip TAB = Inr rs \<longrightarrow>
       paste_rows reader (Some clip) g =
         (let data = (if header_matches (rs ! 0) (headings g) then drop 1 rs else rs);
              new = map (\<lambda>r. map (cell_at r) [0..<length (headings g)]) data
          in (g\<lparr>items := items g @ new\<rparr>, Pasted (length new))))
   \<and> (header_matches row hs \<longleftrightarrow>
        length row = length hs
        \<and> (\<forall>i < length row. lower (strip (row ! i)) = lower (strip (hs ! i))))
   \<and> header_matches [''col a'', '' COL B ''] [''Col A'', ''Col B'']
   \<and> \<not> header_matches [''x'', ''1''] [''Col A'', ''Col B'']"
proof -
  have "header_matches [''col a'', '' COL B ''] [''Col A'', ''Col B'']
      \<and> \<not> header_matches [''x'', ''1''] [''Col A'', ''Col B'']"
    by code_simp
  then show ?thesis
    using paste_rows_rows [of rs reader clip g rc] header_matches_iff [of row hs]
    by blast
qed

theorem paste_rows_sniff_and_skip_witness:
  "paste_rows (\<lambda>ls d. Inr (map (split_on d) ls)) (Some (''col a, COL B '' @ [LF] @ ''x,1''))
      \<lparr>headings = [''Col A'', ''Col B''], items = []\<rparr>
     = (\<lparr>headings = [''Col A'', ''Col B''], items = [[''x'', ''1'']]\<rparr>, Pasted 1)
   \<and> paste_rows (\<lambda>ls d. Inr (map (split_on d) ls)) (Some (''x,1'' @ [LF] @ ''y,2''))
      \<lparr>headings = [''Col A'', ''Col B''], items = []\<rparr>
     = (\<lparr>headings = [''Col A'', ''Col B''], items = [[''x'', ''1''], [''y'', ''2'']]\<rparr>, Pasted 2)
   \<and> paste_rows (\<lambda>ls d. Inr (map (split_on d) ls)) (Some (''x'' @ [TAB] @ ''1''))
      \<lparr>headings = [''Col A'', ''Col B''], items = []\<rparr>
     = (\<lparr>headings = [''Col A'', ''Col B''], items = [[''x'', ''1'']]\<rparr>, Pasted 1)"
proof -
  let ?rd = "\<lambda>ls d. Inr (map (split_on d) ls) :: csv_error + string list list"
  let ?g = "\<lparr>headings = [''Col A'', ''Col B''], items = []\<rparr>"
  let ?t1 = "''col a, COL B '' @ [LF] @ ''x,1''"
  let ?t2 = "''x,1'' @ [LF] @ ''y,2''"
  let ?t3 = "''x'' @ [TAB] @ ''1''"
  have p1: "parse_delimited ?rd ?t1 COMMA = Inr [[''col a'', '' COL B ''], [''x'', ''1'']]"
    by code_simp
  have h1: "header_matches ([[''col a'', '' COL B ''], [''x'', ''1'']] ! 0) (headings ?g)"
    by code_simp
  have p2: "parse_delimited ?rd ?t2 COMMA = Inr [[''x'', ''1''], [''y'', ''2'']]"
    by code_simp
  have h2: "\<not> header_matches ([[''x'', ''1''], [''y'', ''2'']] ! 0) (headings ?g)"
    by code_simp
  have p3: "parse_delimited ?rd ?t3 COMMA = Inr [[''x'' @ [TAB] @ ''1'']]"
    by code_simp
  have p3': "parse_delimited ?rd ?t3 TAB = Inr [[''x'', ''1'']]"
    by code_simp
  have h3: "\<not> header_matches ([[''x'', ''1'']] ! 0) (headings ?g)"
    by code_simp
  have 1: "paste_rows ?rd (Some ?t1) ?g = (\<lparr>headings = [''Col A'', ''Col B''], items = [[''x'', ''1'']]\<rparr>, Pasted 1)"
    using paste_rows_sniff_and_skip [of "[[''col a'', '' COL B ''], [''x'', ''1'']]" ?rd ?t1 ?g] p1 h1
    by (simp add: cell_at_def upt_rec [of 0] upt_rec [of 1])
  have 2: "paste_rows ?rd (Some ?t2) ?g
      = (\<lparr>headings = [''Col A'', ''Col B''], items = [[''x'', ''1''], [''y'', ''2'']]\<rparr>, Pasted 2)"
    using paste_rows_sniff_and_skip [of "[[''x'', ''1''], [''y'', ''2'']]" ?rd ?t2 ?g] p2 h2
    by (simp add: cell_at_def upt_rec [of 0] upt_rec [of 1])
  have 3: "paste_rows ?rd (Some ?t3) ?g
      = (\<lparr>headings = [''Col A'', ''Col B''], items = [[''x'', ''1'']]\<rparr>, Pasted 1)"
    using paste_rows_sniff_and_skip [of "[[''x'', ''1'']]" ?rd ?t3 ?g "[[''x'' @ [TAB] @ ''1'']]"] p3 p3' h3
    by (simp add: cell_at_def upt_rec [of 0] upt_rec [of 1])
  from 1 2 3 show ?thesis by blast
qed


text \<open>
  C5: \<open>_parse_delimited\<close> hands \<open>text.splitlines()\<close> to the reader, so a line break inside
  a quoted field never reaches it: for every reader, the text \<open>"a\nb",c\<close> is read as the two
  lines \<open>"a\<close> and \<open>b",c\<close>, and gives the same rows as \<open>"a\rb",c\<close>. The cell cannot keep its
  line break.
\<close>

theorem parse_delimited_drops_line_break:
  "parse_delimited reader ([DQ] @ ''a'' @ [LF] @ ''b'' @ [DQ] @ '',c'') d
     = reader [[DQ] @ ''a'', ''b'' @ [DQ] @ '',c''] d
   \<and> parse_delimited reader ([DQ] @ ''a'' @ [CR] @ ''b'' @ [DQ] @ '',c'') d
     = parse_delimited reader ([DQ] @ ''a'' @ [LF] @ ''b'' @ [DQ] @ '',c'') d"
proof -
  have "splitlines ([DQ] @ ''a'' @ [LF] @ ''b'' @ [DQ] @ '',c'')
      = [[DQ] @ ''a'', ''b'' @ [DQ] @ '',c'']"
    by code_simp
  moreover have "splitlines ([DQ] @ ''a'' @ [CR] @ ''b'' @ [DQ] @ '',c'')
      = [[DQ] @ ''a'', ''b'' @ [DQ] @ '',c'']"
    by code_simp
  ultimately show ?thesis
    by (simp only: parse_delimited_def simp_thms)
qed


text \<open>
  C1, as amended: for every renderable table (a header; header cells, and row cells in the
  header's columns, with nothing to strip, no \<open>|\<close> and no line boundary; at least two dashes
  in every separator cell), \<open>find_tables\<close> of its rendering is exactly one region, from line
  0 to line 2 plus the number of rows, whose table has the same header, the rows brought
  to the header's number of columns, and for each column the tag that the table's
  alignment is rendered as: \<open>left\<close>, \<open>right\<close> and \<open>center\<close> unchanged.
\<close>

theorem find_tables_to_markdown:
  assumes "renderable t"
  shows "find_tables (to_markdown t) = [(0, 2 + length (rows t), normalized t)]
    \<and> header (normalized t) = header t
    \<and> rows (normalized t) = map (\<lambda>r. map (cell_at r) [0..<length (header t)]) (rows t)
    \<and> aligns (normalized t) = map (\<lambda>i. canon_align (align_at t i)) [0..<length (header t)]
    \<and> canon_align ''left'' = ''left'' \<and> canon_align ''right'' = ''right''
    \<and> canon_align ''center'' = ''center''"
proof -
  have "find_tables_loop (md_lines t) 0 [] = [(0, length (md_lines t), normalized t)]"
    using parse_md_lines [OF assms] by (rule loop_one_table)
  then have "find_tables (to_markdown t) = [(0, 2 + length (rows t), normalized t)]"
    unfolding find_tables_def splitlines_to_markdown [OF assms] length_md_lines .
  moreover have "canon_align ''left'' = ''left'' \<and> canon_align ''right'' = ''right''
    \<and> canon_align ''center'' = ''center''"
    by (simp add: canon_align_def)
  ultimately show ?thesis
    by (simp add: normalized_def Let_def)
qed

theorem find_tables_to_markdown_witness:
  "renderable \<lparr>header = [''a'', ''bc''], aligns = [''center''], rows = [[''xy'']]\<rparr>
   \<and> find_tables (to_markdown \<lparr>header = [''a'', ''bc''], aligns = [''center''], rows = [[''xy'']]\<rparr>)
     = [(0, 3, \<lparr>header = [''a'', ''bc''], aligns = [''center'', ''left''],
                rows = [[''xy'', '''']]\<rparr>)]"
proof -
  let ?t = "\<lparr>header = [''a'', ''bc''], aligns = [''center''], rows = [[''xy'']]\<rparr>"
  have r: "renderable ?t"
    by code_simp
  have n: "normalized ?t = \<lparr>header = [''a'', ''bc''], aligns = [''center'', ''left''],
                rows = [[''xy'', '''']]\<rparr>"
    by code_simp
  from find_tables_to_markdown [OF r]
  have "find_tables (to_markdown ?t) = [(0, 2 + length (rows ?t), normalized ?t)]"
    by (rule conjunct1)
  with r n show ?thesis by simp
qed

text \<open>
  C1 as stated fails: the parser strips cells, so a header cell or a row cell with white
  space at an end does not come back.
\<close>

theorem find_tables_to_markdown_trims:
  "find_tables (to_markdown \<lparr>header = ['' a''], aligns = [''left''], rows = [[''x '']]\<rparr>)
     = [(0, 3, \<lparr>header = [''a''], aligns = [''left''], rows = [[''x'']]\<rparr>)]
   \<and> [''a''] \<noteq> ['' a''] \<and> [[''x'']] \<noteq> [[''x '']]"
  by code_simp

text \<open>
  C3, as amended: for every renderable table, rendering it, parsing the text at index 0 and
  rendering the parsed table gives the same text again, and so does any number of further
  cycles.
\<close>

theorem reparse_fixed:
  assumes "renderable t"
  shows "reparse (to_markdown t) = Some (to_markdown t)
    \<and> (\<forall>n. cycles n (to_markdown t) = Some (to_markdown t))"
  using reparse_to_markdown [OF assms] cycles_fixed by blast

theorem reparse_fixed_witness:
  "renderable \<lparr>header = [''k'', ''val''], aligns = [''right'', ''center''],
       rows = [[''1''], [''2'', ''b'', ''extra'']]\<rparr>
   \<and> reparse (to_markdown \<lparr>header = [''k'', ''val''], aligns = [''right'', ''center''],
       rows = [[''1''], [''2'', ''b'', ''extra'']]\<rparr>)
     = Some (to_markdown \<lparr>header = [''k'', ''val''], aligns = [''right'', ''center''],
       rows = [[''1''], [''2'', ''b'', ''extra'']]\<rparr>)
   \<and> cycles 3 (to_markdown \<lparr>header = [''k'', ''val''], aligns = [''right'', ''center''],
       rows = [[''1''], [''2'', ''b'', ''extra'']]\<rparr>)
     = Some (to_markdown \<lparr>header = [''k'', ''val''], aligns = [''right'', ''center''],
       rows = [[''1''], [''2'', ''b'', ''extra'']]\<rparr>)"
proof -
  let ?t = "\<lparr>header = [''k'', ''val''], aligns = [''right'', ''center''],
       rows = [[''1''], [''2'', ''b'', ''extra'']]\<rparr>"
  have r: "renderable ?t"
    by code_simp
  from reparse_fixed [OF r] have "reparse (to_markdown ?t) = Some (to_markdown ?t)"
    and "cycles 3 (to_markdown ?t) = Some (to_markdown ?t)"
    by blast+
  with r show ?thesis by blast
qed

text \<open>
  C3 as stated fails: a cell holding a \<open>|\<close> is parsed as two cells, and the second rendering
  differs from the first.
\<close>

theorem reparse_pipe_cell_differs:
  "reparse (to_markdown \<lparr>header = [''a|b''], aligns = [''left''], rows = []\<rparr>)
     = Some (join [LF] [''| a | b |'', ''|:--|:--|''])
   \<and> to_markdown \<lparr>header = [''a|b''], aligns = [''left''], rows = []\<rparr>
     = join [LF] [''| a|b |'', ''|:----|'']
   \<and> join [LF] [''| a | b |'', ''|:--|:--|''] \<noteq> join [LF] [''| a|b |'', ''|:----|'']"
  by code_simp


end
